theory Spec2Isabelle
  imports Main "HOL-Library.Sublist"
begin

section \<open>Strings of the source language\<close>

text \<open>
  The pipeline is Python: a \<open>str\<close> is a sequence of code points, and \<open>len\<close>, slicing,
  \<open>strip\<close>, \<open>split\<close>, \<open>lower\<close> and the \<open>re\<close> module all work on code points.
  A \<^typ>\<open>char\<close> stands here for one code point below 256, so a \<^typ>\<open>string\<close> is a text
  over U+0000..U+00FF. Every literal of the source lies in that range (the accented
  letters of the Portuguese headings are written \<open>CHR 0x..\<close>), and on that range the
  character classes of Python are the small tables below.
\<close>

definition isspace :: "char \<Rightarrow> bool" where
  \<comment> \<open>\<open>str.isspace\<close>, which is also what \<open>\s\<close>, \<open>strip()\<close> and \<open>split()\<close> use\<close>
  "isspace c = (let n = (of_char c :: nat) in
     (9 \<le> n \<and> n \<le> 13) \<or> (28 \<le> n \<and> n \<le> 32) \<or> n = 133 \<or> n = 160)"

definition isdigit :: "char \<Rightarrow> bool" where
  \<comment> \<open>\<open>\d\<close>: the decimal digits; below 256 these are 0-9 only\<close>
  "isdigit c = (let n = (of_char c :: nat) in 48 \<le> n \<and> n \<le> 57)"

definition lower_char :: "char \<Rightarrow> char" where
  \<comment> \<open>\<open>str.lower\<close> on one code point: A-Z and the accented capitals U+00C0..U+00DE
      (without the multiplication sign U+00D7) move up by 32\<close>
  "lower_char c = (let n = (of_char c :: nat) in
     if (65 \<le> n \<and> n \<le> 90) \<or> (192 \<le> n \<and> n \<le> 222 \<and> n \<noteq> 215)
     then char_of (n + 32) else c)"

definition lower :: "string \<Rightarrow> string" where
  "lower s = map lower_char s"

definition strip :: "string \<Rightarrow> string" where
  "strip s = rev (dropWhile isspace (rev (dropWhile isspace s)))"

abbreviation newline :: char where
  "newline \<equiv> CHR 0x0A"

abbreviation backslash :: char where
  "backslash \<equiv> CHR 0x5C"

fun split_on :: "char \<Rightarrow> string \<Rightarrow> string list" where
  \<comment> \<open>\<open>s.split(sep)\<close> for a one-character separator: empty fields are kept\<close>
  "split_on sep [] = [[]]"
| "split_on sep (c # cs) =
     (if c = sep then [] # split_on sep cs
      else (case split_on sep cs of
              [] \<Rightarrow> [[c]]
            | w # ws \<Rightarrow> (c # w) # ws))"

fun split_ws :: "string \<Rightarrow> string list" where
  \<comment> \<open>\<open>s.split()\<close>: the maximal runs of non-whitespace\<close>
  "split_ws [] = []"
| "split_ws (c # cs) =
     (if isspace c then split_ws cs
      else (case cs of
              [] \<Rightarrow> [[c]]
            | d # ds \<Rightarrow>
                if isspace d then [c] # split_ws cs
                else (case split_ws cs of
                        [] \<Rightarrow> [[c]]
                      | w # ws \<Rightarrow> (c # w) # ws)))"

fun join :: "string \<Rightarrow> string list \<Rightarrow> string" where
  "join sep [] = []"
| "join sep [w] = w"
| "join sep (w # v # ws) = w @ sep @ join sep (v # ws)"

definition slice :: "string \<Rightarrow> nat \<Rightarrow> nat \<Rightarrow> string" where
  \<comment> \<open>\<open>s[b:e]\<close> for \<open>0 \<le> b\<close>, \<open>0 \<le> e\<close>\<close>
  "slice s b e = take (e - b) (drop b s)"

fun digits_of :: "nat \<Rightarrow> string" where
  \<comment> \<open>\<open>str(i)\<close> of a non-negative integer\<close>
  "digits_of n =
     (if n < 10 then [char_of (48 + n)]
      else digits_of (n div 10) @ [char_of (48 + n mod 10)])"

declare digits_of.simps [simp del]

section \<open>The regular expressions of the \<open>re\<close> module\<close>

text \<open>
  The source builds its patterns as strings, some of them from its arguments, and hands
  them to \<open>re.search\<close>, \<open>re.sub\<close> and \<open>re.findall\<close>. The model does the same: a pattern
  string is tokenised and parsed to a syntax tree, and the tree is run by a
  backtracking matcher that lists the ways to match in the order in which the
  \<open>re\<close> engine tries them, so that the head of the list is the match \<open>re\<close> reports.

  The parser covers the fragment that the patterns of the source use: literals,
  \<open>.\<close>, \<open>\d\<close>, \<open>\s\<close>, escaped punctuation, character sets with ranges,
  \<open>^\<close>, \<open>$\<close>, capturing and non-capturing groups, the lookahead \<open>(?=...)\<close>,
  alternation and the quantifiers \<open>*\<close>, \<open>+\<close>, \<open>?\<close> with their lazy forms.
  A pattern that \<open>re\<close> rejects with \<open>re.error\<close> gives \<open>ReError\<close>; a pattern outside the
  fragment gives \<open>NotModelled\<close>, and nothing is said about the program on it.
\<close>

datatype error =
    ReError           \<comment> \<open>\<open>re.error\<close>: the pattern does not compile\<close>
  | NotModelled       \<comment> \<open>the pattern is outside the modelled fragment\<close>
  | AttributeError    \<comment> \<open>a method call on \<open>None\<close>\<close>
  | IndexError        \<comment> \<open>\<open>xs[0]\<close> on an empty list\<close>
  | KeyError          \<comment> \<open>\<open>d[k]\<close> for a key that is not there\<close>
  | EmbeddingError    \<comment> \<open>raised by the embedding model\<close>
  | DuplicateIDError  \<comment> \<open>raised by the vector store\<close>

datatype quant = Star | Plus | Opt

datatype citem = CChar char | CRange char char | CSpace | CDigit

datatype token =
    TChar char | TAny | TSpace | TDigit | TClass bool "citem list"
  | TBol | TEol | TOpen | TOpenNC | TOpenLook | TClose | TBar
  | TQuant quant bool

datatype regex =
    Lit char
  | Any
  | Space
  | Digit
  | Cls bool "citem list"
  | Bol
  | Eol
  | Seq "regex list"
  | Alt "regex list"
  | Rep quant bool regex     \<comment> \<open>the flag is True for the greedy form\<close>
  | Grp nat regex
  | Look regex

datatype tmode = Normal | InClass bool "citem list"

definition ispunct :: "char \<Rightarrow> bool" where
  \<comment> \<open>the ASCII punctuation, which a backslash makes literal\<close>
  "ispunct c = (let n = (of_char c :: nat) in
     (33 \<le> n \<and> n \<le> 47) \<or> (58 \<le> n \<and> n \<le> 64) \<or> (91 \<le> n \<and> n \<le> 96) \<or> (123 \<le> n \<and> n \<le> 126))"

definition quant_of :: "char \<Rightarrow> quant option" where
  "quant_of c = (if c = CHR ''*'' then Some Star else if c = CHR ''+'' then Some Plus
                 else if c = CHR ''?'' then Some Opt else None)"

definition cons_tok :: "token \<Rightarrow> error + token list \<Rightarrow> error + token list" where
  "cons_tok t r = (case r of Inl e \<Rightarrow> Inl e | Inr ts \<Rightarrow> Inr (t # ts))"

fun tokens :: "tmode \<Rightarrow> string \<Rightarrow> error + token list" where
  "tokens Normal [] = Inr []"
| "tokens (InClass neg items) [] = Inl ReError"
| "tokens Normal (c # cs) =
     (if c = backslash then
        (case cs of
           [] \<Rightarrow> Inl ReError
         | e # es \<Rightarrow>
             if e = CHR ''d'' then cons_tok TDigit (tokens Normal es)
             else if e = CHR ''s'' then cons_tok TSpace (tokens Normal es)
             else if ispunct e then cons_tok (TChar e) (tokens Normal es)
             else Inl NotModelled)
      else if c = CHR ''.'' then cons_tok TAny (tokens Normal cs)
      else if c = CHR ''^'' then cons_tok TBol (tokens Normal cs)
      else if c = CHR ''$'' then cons_tok TEol (tokens Normal cs)
      else if c = CHR ''|'' then cons_tok TBar (tokens Normal cs)
      else if c = CHR '')'' then cons_tok TClose (tokens Normal cs)
      else if c = CHR ''('' then
        (case cs of
           [] \<Rightarrow> Inr [TOpen]
         | d # ds \<Rightarrow>
             if d = CHR ''?'' then
               (case ds of
                  [] \<Rightarrow> Inl ReError
                | k # ks \<Rightarrow>
                    if k = CHR '':'' then cons_tok TOpenNC (tokens Normal ks)
                    else if k = CHR ''='' then cons_tok TOpenLook (tokens Normal ks)
                    else Inl NotModelled)
             else cons_tok TOpen (tokens Normal (d # ds)))
      else if c = CHR ''{'' then Inl NotModelled
      else if c = CHR ''['' then
        (case cs of
           [] \<Rightarrow> Inl ReError
         | d # ds \<Rightarrow>
             if d = CHR ''^'' then tokens (InClass True []) ds
             else tokens (InClass False []) (d # ds))
      else (case quant_of c of
              Some q \<Rightarrow>
                (case cs of
                   [] \<Rightarrow> Inr [TQuant q True]
                 | d # ds \<Rightarrow>
                     if d = CHR ''?'' then cons_tok (TQuant q False) (tokens Normal ds)
                     else if d = CHR ''+'' then Inl NotModelled
                     else cons_tok (TQuant q True) (tokens Normal (d # ds)))
            | None \<Rightarrow> cons_tok (TChar c) (tokens Normal cs)))"
| "tokens (InClass neg items) (c # cs) =
     (if c = CHR '']'' then
        (if items = [] then Inl NotModelled
         else cons_tok (TClass neg (rev items)) (tokens Normal cs))
      else if c = backslash then
        (case cs of
           [] \<Rightarrow> Inl ReError
         | e # es \<Rightarrow>
             if e = CHR ''d'' then tokens (InClass neg (CDigit # items)) es
             else if e = CHR ''s'' then tokens (InClass neg (CSpace # items)) es
             else if ispunct e then tokens (InClass neg (CChar e # items)) es
             else Inl NotModelled)
      else if c = CHR ''['' \<or> c = CHR ''-'' then Inl NotModelled
      else
        (case cs of
           [] \<Rightarrow> Inl ReError
         | d # ds \<Rightarrow>
             if d = CHR ''-'' then
               (case ds of
                  [] \<Rightarrow> Inl ReError
                | h # hs \<Rightarrow>
                    if h = CHR '']'' \<or> h = backslash \<or> h = CHR ''['' \<or> h = CHR ''-''
                    then Inl NotModelled
                    else if (of_char c :: nat) \<le> of_char h
                    then tokens (InClass neg (CRange c h # items)) hs
                    else Inl ReError)
             else tokens (InClass neg (CChar c # items)) (d # ds)))"

fun nullable :: "regex \<Rightarrow> bool" where
  \<comment> \<open>may the expression match without consuming a character\<close>
  "nullable (Lit c) = False"
| "nullable Any = False"
| "nullable Space = False"
| "nullable Digit = False"
| "nullable (Cls neg items) = False"
| "nullable Bol = True"
| "nullable Eol = True"
| "nullable (Seq rs) = list_all nullable rs"
| "nullable (Alt rs) = list_ex nullable rs"
| "nullable (Rep q g r) = (if q = Plus then nullable r else True)"
| "nullable (Grp n r) = nullable r"
| "nullable (Look r) = True"

datatype gkind = GCap nat | GNon | GLook

type_synonym frame = "gkind \<times> regex list \<times> regex list"

definition close_alts :: "regex list \<Rightarrow> regex list \<Rightarrow> regex" where
  \<comment> \<open>the alternatives already closed and the current sequence, both newest first\<close>
  "close_alts alts cur =
     (case alts of [] \<Rightarrow> Seq (rev cur) | a # as \<Rightarrow> Alt (rev (Seq (rev cur) # alts)))"

definition wrap :: "gkind \<Rightarrow> regex \<Rightarrow> regex" where
  "wrap k r = (case k of GCap n \<Rightarrow> Grp n r | GNon \<Rightarrow> r | GLook \<Rightarrow> Look r)"

definition quantify :: "quant \<Rightarrow> bool \<Rightarrow> regex \<Rightarrow> error + regex" where
  \<comment> \<open>\<open>^*\<close> is "nothing to repeat" and \<open>a**\<close> is "multiple repeat"; a repeated
      body that can match the empty string is left outside the fragment\<close>
  "quantify q g x =
     (case x of
        Bol \<Rightarrow> Inl ReError
      | Eol \<Rightarrow> Inl ReError
      | Rep q' g' y \<Rightarrow> Inl ReError
      | Look y \<Rightarrow> Inl NotModelled
      | _ \<Rightarrow> if nullable x then Inl NotModelled else Inr (Rep q g x))"

fun parse :: "token list \<Rightarrow> frame list \<Rightarrow> regex list \<Rightarrow> regex list \<Rightarrow> nat \<Rightarrow> error + regex" where
  "parse [] stk alts cur n = (if stk = [] then Inr (close_alts alts cur) else Inl ReError)"
| "parse (t # ts) stk alts cur n =
     (case t of
        TChar c \<Rightarrow> parse ts stk alts (Lit c # cur) n
      | TAny \<Rightarrow> parse ts stk alts (Any # cur) n
      | TSpace \<Rightarrow> parse ts stk alts (Space # cur) n
      | TDigit \<Rightarrow> parse ts stk alts (Digit # cur) n
      | TClass neg items \<Rightarrow> parse ts stk alts (Cls neg items # cur) n
      | TBol \<Rightarrow> parse ts stk alts (Bol # cur) n
      | TEol \<Rightarrow> parse ts stk alts (Eol # cur) n
      | TOpen \<Rightarrow> parse ts ((GCap (Suc n), alts, cur) # stk) [] [] (Suc n)
      | TOpenNC \<Rightarrow> parse ts ((GNon, alts, cur) # stk) [] [] n
      | TOpenLook \<Rightarrow> parse ts ((GLook, alts, cur) # stk) [] [] n
      | TBar \<Rightarrow> parse ts stk (Seq (rev cur) # alts) [] n
      | TClose \<Rightarrow>
          (case stk of
             [] \<Rightarrow> Inl ReError
           | (k, palts, pcur) # stk' \<Rightarrow>
               parse ts stk' palts (wrap k (close_alts alts cur) # pcur) n)
      | TQuant q g \<Rightarrow>
          (case cur of
             [] \<Rightarrow> Inl ReError
           | x # xs \<Rightarrow>
               (case quantify q g x of
                  Inl e \<Rightarrow> Inl e
                | Inr y \<Rightarrow> parse ts stk alts (y # xs) n)))"

fun has_class :: "regex \<Rightarrow> bool" where
  "has_class (Cls neg items) = True"
| "has_class (Seq rs) = list_ex has_class rs"
| "has_class (Alt rs) = list_ex has_class rs"
| "has_class (Rep q g r) = has_class r"
| "has_class (Grp n r) = has_class r"
| "has_class (Look r) = has_class r"
| "has_class r = False"

record flags =
  dotall :: bool
  ignorecase :: bool

definition no_flags :: flags where
  "no_flags = \<lparr>dotall = False, ignorecase = False\<rparr>"

definition DOTALL :: flags where
  "DOTALL = \<lparr>dotall = True, ignorecase = False\<rparr>"

definition IGNORECASE :: flags where
  "IGNORECASE = \<lparr>dotall = False, ignorecase = True\<rparr>"

definition re_compile :: "flags \<Rightarrow> string \<Rightarrow> error + regex" where
  \<comment> \<open>character sets under \<open>IGNORECASE\<close> are outside the fragment\<close>
  "re_compile fl pat =
     (case tokens Normal pat of
        Inl e \<Rightarrow> Inl e
      | Inr ts \<Rightarrow>
          (case parse ts [] [] [] 0 of
             Inl e \<Rightarrow> Inl e
           | Inr r \<Rightarrow> if ignorecase fl \<and> has_class r then Inl NotModelled else Inr r))"

subsection \<open>Matching\<close>

text \<open>
  A matcher state is the position in the text, the text from there on, and the spans
  of the groups matched so far. \<open>matches\<close> lists the states in which the expression can
  end, first choice first: a greedy quantifier tries one more repetition before it
  stops, a lazy one stops before it tries, an alternation tries its branches from
  left to right.

  With \<open>IGNORECASE\<close> a literal matches a character that has the same lower-case form.
  On the code points below 256 this is the comparison \<open>re\<close> makes. Above them \<open>re\<close>
  knows a few more pairs (the letter \<open>i\<close> also matches U+0130 and U+0131, \<open>s\<close> matches
  U+017F, \<open>k\<close> matches U+212A); such characters are not texts of this theory. The only
  \<open>IGNORECASE\<close> pattern of the pipeline is the heading pattern of the default cleaning,
  and the theorem about it is stated in terms of \<open>re_search\<close> finding a match, not of
  the letters a match consists of.
\<close>

type_synonym mstate = "nat \<times> string \<times> (nat \<rightharpoonup> nat \<times> nat)"

fun citem_match :: "char \<Rightarrow> citem \<Rightarrow> bool" where
  "citem_match c (CChar x) = (c = x)"
| "citem_match c (CRange lo hi) = ((of_char lo :: nat) \<le> of_char c \<and> (of_char c :: nat) \<le> of_char hi)"
| "citem_match c CSpace = isspace c"
| "citem_match c CDigit = isdigit c"

definition one_char :: "(char \<Rightarrow> bool) \<Rightarrow> mstate \<Rightarrow> mstate list" where
  "one_char P st =
     (case st of (p, rest, caps) \<Rightarrow>
        (case rest of
           [] \<Rightarrow> []
         | x # xs \<Rightarrow> if P x then [(Suc p, xs, caps)] else []))"

fun rep_star :: "(mstate \<Rightarrow> mstate list) \<Rightarrow> bool \<Rightarrow> nat \<Rightarrow> mstate \<Rightarrow> mstate list" where
  \<comment> \<open>zero or more rounds of \<open>f\<close>, each of which moves on in the text; the counter
      starts at the number of characters left, so it never cuts a round off\<close>
  "rep_star f g 0 st = [st]"
| "rep_star f g (Suc n) st =
     (let more = concat (map (rep_star f g n) (filter (\<lambda>st'. fst st < fst st') (f st)))
      in if g then more @ [st] else st # more)"

fun matches :: "flags \<Rightarrow> regex \<Rightarrow> mstate \<Rightarrow> mstate list"
  and matches_seq :: "flags \<Rightarrow> regex list \<Rightarrow> mstate \<Rightarrow> mstate list"
  and matches_alt :: "flags \<Rightarrow> regex list \<Rightarrow> mstate \<Rightarrow> mstate list" where
  \<comment> \<open>a literal; with \<open>IGNORECASE\<close> the lower-case forms are compared, which is the
      test of \<open>re\<close> on code points below 256\<close>
  "matches fl (Lit c) st =
     one_char (\<lambda>x. if ignorecase fl then lower_char x = lower_char c else x = c) st"
| "matches fl Any st = one_char (\<lambda>x. if dotall fl then True else x \<noteq> newline) st"
| "matches fl Space st = one_char isspace st"
| "matches fl Digit st = one_char isdigit st"
| "matches fl (Cls neg items) st = one_char (\<lambda>x. list_ex (citem_match x) items \<noteq> neg) st"
| "matches fl Bol st = (if fst st = 0 then [st] else [])"
| "matches fl Eol st = (if fst (snd st) = [] \<or> fst (snd st) = [newline] then [st] else [])"
| "matches fl (Seq rs) st = matches_seq fl rs st"
| "matches fl (Alt rs) st = matches_alt fl rs st"
| "matches fl (Rep q g r) st =
     (case q of
        Star \<Rightarrow> rep_star (\<lambda>s. matches fl r s) g (length (fst (snd st))) st
      | Plus \<Rightarrow> concat (map (\<lambda>s. rep_star (\<lambda>s. matches fl r s) g (length (fst (snd s))) s)
                          (matches fl r st))
      | Opt \<Rightarrow> if g then matches fl r st @ [st] else st # matches fl r st)"
| "matches fl (Grp n r) st =
     map (\<lambda>(p', rest', caps'). (p', rest', caps'(n \<mapsto> (fst st, p')))) (matches fl r st)"
| "matches fl (Look r) st =
     (case matches fl r st of
        [] \<Rightarrow> []
      | (p', rest', caps') # other \<Rightarrow> [(fst st, fst (snd st), caps')])"
| "matches_seq fl [] st = [st]"
| "matches_seq fl (r # rs) st = concat (map (\<lambda>s. matches_seq fl rs s) (matches fl r st))"
| "matches_alt fl [] st = []"
| "matches_alt fl (r # rs) st = matches fl r st @ matches_alt fl rs st"

record rmatch =
  m_string :: string
  m_start :: nat
  m_end :: nat
  m_groups :: "nat \<rightharpoonup> nat \<times> nat"

definition group :: "rmatch \<Rightarrow> nat \<Rightarrow> string option" where
  \<comment> \<open>\<open>m.group(k)\<close>; \<open>None\<close> for a group that took no part in the match\<close>
  "group m k =
     (if k = 0 then Some (slice (m_string m) (m_start m) (m_end m))
      else (case m_groups m k of
              None \<Rightarrow> None
            | Some (b, e) \<Rightarrow> Some (slice (m_string m) b e)))"

definition acceptable :: "bool \<Rightarrow> nat \<Rightarrow> mstate \<Rightarrow> bool" where
  \<comment> \<open>with \<open>adv\<close> set, a match that ends where the scan started is passed over\<close>
  "acceptable adv p st = (if adv then fst st \<noteq> p else True)"

fun search_at :: "flags \<Rightarrow> regex \<Rightarrow> bool \<Rightarrow> nat \<Rightarrow> string \<Rightarrow> (nat \<times> nat \<times> (nat \<rightharpoonup> nat \<times> nat)) option" where
  \<comment> \<open>the scan of \<open>re.search\<close> from position \<open>p\<close>, where \<open>rest\<close> is the text from \<open>p\<close> on:
      the first position with a match, and there the first choice. With \<open>adv\<close> set
      an empty match at \<open>p\<close> itself is not taken (the rule of \<open>sub\<close> and \<open>findall\<close>
      after an empty match).\<close>
  "search_at fl r adv p [] =
     (case filter (acceptable adv p) (matches fl r (p, [], Map.empty)) of
        [] \<Rightarrow> None
      | (e, rest', caps) # other \<Rightarrow> Some (p, e, caps))"
| "search_at fl r adv p (c # cs) =
     (case filter (acceptable adv p) (matches fl r (p, c # cs, Map.empty)) of
        [] \<Rightarrow> search_at fl r False (Suc p) cs
      | (e, rest', caps) # other \<Rightarrow> Some (p, e, caps))"

definition search_regex :: "flags \<Rightarrow> regex \<Rightarrow> string \<Rightarrow> rmatch option" where
  "search_regex fl r s =
     (case search_at fl r False 0 s of
        None \<Rightarrow> None
      | Some (b, e, caps) \<Rightarrow> Some \<lparr>m_string = s, m_start = b, m_end = e, m_groups = caps\<rparr>)"

definition re_search :: "string \<Rightarrow> string \<Rightarrow> flags \<Rightarrow> error + rmatch option" where
  \<comment> \<open>\<open>re.search(pattern, text, flags)\<close>\<close>
  "re_search pat s fl =
     (case re_compile fl pat of
        Inl e \<Rightarrow> Inl e
      | Inr r \<Rightarrow> Inr (search_regex fl r s))"

subsection \<open>Substitution and \<open>findall\<close>\<close>

text \<open>
  \<open>re.sub\<close> and \<open>re.findall\<close> search again from the end of the last match. The loops
  end because a match never ends before it starts, and an empty match is not taken
  twice at one position.
\<close>

definition reaches :: "mstate \<Rightarrow> mstate \<Rightarrow> bool" where
  "reaches st st' = (\<exists>k. fst st' = fst st + k \<and> k \<le> length (fst (snd st)) \<and> fst (snd st') = drop k (fst (snd st)))"

lemma reaches_refl: "reaches st st"
  by (auto simp: reaches_def intro: exI[of _ 0])

lemma reaches_trans: "reaches a b \<Longrightarrow> reaches b c \<Longrightarrow> reaches a c"
  unfolding reaches_def
  apply (elim exE conjE)
  subgoal for k l
    by (rule exI[of _ "k + l"]) (auto simp: add.commute)
  done

lemma one_char_reaches: "st' \<in> set (one_char P st) \<Longrightarrow> reaches st st'"
  by (cases st) (auto simp: one_char_def reaches_def split: list.splits if_splits intro: exI[of _ 1])

lemma rep_star_reaches:
  assumes f: "\<And>a b. b \<in> set (f a) \<Longrightarrow> reaches a b"
  shows "st' \<in> set (rep_star f g n st) \<Longrightarrow> reaches st st'"
proof (induction n arbitrary: st)
  case 0
  then show ?case by (simp add: reaches_refl)
next
  case (Suc n)
  then show ?case
    by (auto simp: Let_def reaches_refl split: if_splits dest!: f intro: reaches_trans)
qed

lemma matches_reaches:
  "st' \<in> set (matches fl r st) \<Longrightarrow> reaches st st'"
  "st' \<in> set (matches_seq fl rs st) \<Longrightarrow> reaches st st'"
  "st' \<in> set (matches_alt fl rs st) \<Longrightarrow> reaches st st'"
proof (induction fl r st and fl rs st and fl rs st arbitrary: st' and st' and st' rule: matches_matches_seq_matches_alt.induct)
  case (10 fl q g r st)
  show ?case
  proof (cases q)
    case Star
    with 10 show ?thesis by (auto elim: rep_star_reaches[rotated])
  next
    case Plus
    from "10.prems" Plus obtain m where m: "m \<in> set (matches fl r st)"
      and st': "st' \<in> set (rep_star (\<lambda>s. matches fl r s) g (length (fst (snd m))) m)"
      by auto
    have 1: "reaches st m" using 10(2)[OF Plus m] .
    have 2: "reaches m st'"
      using st' 10(3)[OF Plus m] by (auto elim: rep_star_reaches[rotated])
    from 1 2 show ?thesis by (rule reaches_trans)
  next
    case Opt
    from "10.prems" Opt have "st' = st \<or> st' \<in> set (matches fl r st)"
      by (auto split: if_splits)
    then show ?thesis
      using "10.IH"(4,5)[OF Opt] reaches_refl by (cases g) blast+
  qed
next
  case (11 fl n r st)
  then show ?case by (auto simp: reaches_def)
next
  case (12 fl r st)
  then show ?case by (auto simp: reaches_def split: list.splits)
next
  case (14 fl r rs st)
  from "14.prems" obtain m where "m \<in> set (matches fl r st)" "st' \<in> set (matches_seq fl rs m)"
    by auto
  then show ?case using "14.IH" reaches_trans by blast
qed (auto simp: reaches_refl one_char_reaches split: if_splits)


lemma search_at_bounds:
  "search_at fl r adv p rest = Some (b, e, caps) \<Longrightarrow>
     p \<le> b \<and> b \<le> e \<and> e \<le> p + length rest \<and> (adv \<longrightarrow> e \<noteq> p)"
proof (induction rest arbitrary: p adv)
  case Nil
  from Nil obtain st other where f: "filter (acceptable adv p) (matches fl r (p, [], Map.empty)) = st # other"
    and st: "fst st = e" "b = p"
    by (auto split: list.splits)
  from f have "st \<in> set (filter (acceptable adv p) (matches fl r (p, [], Map.empty)))" by simp
  then have m: "st \<in> set (matches fl r (p, [], Map.empty))" and a: "adv \<Longrightarrow> fst st \<noteq> p" by (auto simp: acceptable_def)
  from matches_reaches(1)[OF m] st a show ?case by (auto simp: reaches_def)
next
  case (Cons c cs)
  show ?case
  proof (cases "filter (acceptable adv p) (matches fl r (p, c # cs, Map.empty))")
    case Nil
    with Cons.prems have "search_at fl r False (Suc p) cs = Some (b, e, caps)" by simp
    from Cons.IH[OF this] show ?thesis by auto
  next
    case (Cons st other)
    with Cons.prems have st: "fst st = e" "b = p" by (auto split: prod.splits)
    from Cons have "st \<in> set (filter (acceptable adv p) (matches fl r (p, c # cs, Map.empty)))" by simp
    then have m: "st \<in> set (matches fl r (p, c # cs, Map.empty))" and a: "adv \<Longrightarrow> fst st \<noteq> p" by (auto simp: acceptable_def)
    from matches_reaches(1)[OF m] st a show ?thesis by (auto simp: reaches_def)
  qed
qed

function sub_loop :: "flags \<Rightarrow> regex \<Rightarrow> string \<Rightarrow> bool \<Rightarrow> nat \<Rightarrow> string \<Rightarrow> string" where
  "sub_loop fl r repl adv p rest =
     (case search_at fl r adv p rest of
        None \<Rightarrow> rest
      | Some (b, e, caps) \<Rightarrow>
          take (b - p) rest @ repl @ sub_loop fl r repl (e = b) e (drop (e - p) rest))"
  by pat_completeness auto
termination
proof (relation "measures [\<lambda>(fl, r, repl, adv, p, rest). length rest,
                           \<lambda>(fl, r, repl, adv, p, rest). if adv then 0 else 1]", goal_cases)
  case 1
  then show ?case by simp
next
  case (2 fl r repl adv p rest x b y e caps)
  then have "search_at fl r adv p rest = Some (b, e, caps)" by simp
  from search_at_bounds[OF this] show ?case by auto
qed

function findall_loop :: "flags \<Rightarrow> regex \<Rightarrow> string \<Rightarrow> bool \<Rightarrow> nat \<Rightarrow> string \<Rightarrow> string list" where
  "findall_loop fl r s adv p rest =
     (case search_at fl r adv p rest of
        None \<Rightarrow> []
      | Some (b, e, caps) \<Rightarrow>
          (case caps 1 of None \<Rightarrow> [] | Some (gb, ge) \<Rightarrow> slice s gb ge)
          # findall_loop fl r s (e = b) e (drop (e - p) rest))"
  by pat_completeness auto
termination
proof (relation "measures [\<lambda>(fl, r, s, adv, p, rest). length rest,
                           \<lambda>(fl, r, s, adv, p, rest). if adv then 0 else 1]", goal_cases)
  case 1
  then show ?case by simp
next
  case (2 fl r s adv p rest x b y e caps)
  then have "search_at fl r adv p rest = Some (b, e, caps)" by simp
  from search_at_bounds[OF this] show ?case by auto
qed


declare sub_loop.simps [simp del] findall_loop.simps [simp del]

definition re_sub :: "string \<Rightarrow> string \<Rightarrow> string \<Rightarrow> flags \<Rightarrow> error + string" where
  \<comment> \<open>\<open>re.sub(pattern, repl, text, flags=...)\<close> for a replacement without backslashes\<close>
  "re_sub pat repl s fl =
     (case re_compile fl pat of
        Inl e \<Rightarrow> Inl e
      | Inr r \<Rightarrow> Inr (sub_loop fl r repl False 0 s))"

definition re_findall1 :: "string \<Rightarrow> string \<Rightarrow> flags \<Rightarrow> error + string list" where
  \<comment> \<open>\<open>re.findall(pattern, text, flags)\<close> for a pattern with one group: the list of
      what the group matched\<close>
  "re_findall1 pat s fl =
     (case re_compile fl pat of
        Inl e \<Rightarrow> Inl e
      | Inr r \<Rightarrow> Inr (findall_loop fl r s False 0 s))"

definition and_then :: "error + 'a \<Rightarrow> ('a \<Rightarrow> error + 'b) \<Rightarrow> error + 'b" where
  \<comment> \<open>run the second step unless the first one raised\<close>
  "and_then x f = (case x of Inl e \<Rightarrow> Inl e | Inr v \<Rightarrow> f v)"

definition group1 :: "rmatch \<Rightarrow> error + string" where
  \<comment> \<open>\<open>m.group(1)\<close> where a string method is called on the result\<close>
  "group1 m = (case group m 1 of None \<Rightarrow> Inl AttributeError | Some g \<Rightarrow> Inr g)"

section \<open>Extraction and cleaning (notebook cell 4)\<close>

abbreviation bs_d :: string where
  "bs_d \<equiv> [backslash, CHR ''d'']"

abbreviation bs_s :: string where
  "bs_s \<equiv> [backslash, CHR ''s'']"

abbreviation a_acute :: char where "a_acute \<equiv> CHR 0xE1"
abbreviation a_tilde :: char where "a_tilde \<equiv> CHR 0xE3"
abbreviation c_cedilla :: char where "c_cedilla \<equiv> CHR 0xE7"
abbreviation e_acute :: char where "e_acute \<equiv> CHR 0xE9"
abbreviation e_circ :: char where "e_circ \<equiv> CHR 0xEA"
abbreviation o_acute :: char where "o_acute \<equiv> CHR 0xF3"
abbreviation o_tilde :: char where "o_tilde \<equiv> CHR 0xF5"
abbreviation u_acute :: char where "u_acute \<equiv> CHR 0xFA"

definition item0 :: "'a list \<Rightarrow> error + 'a" where
  \<comment> \<open>\<open>xs[0]\<close>\<close>
  "item0 xs = (case xs of [] \<Rightarrow> Inl IndexError | x # rest \<Rightarrow> Inr x)"

definition whole :: "rmatch \<Rightarrow> string" where
  \<comment> \<open>\<open>m.group(0)\<close>\<close>
  "whole m = slice (m_string m) (m_start m) (m_end m)"

definition name_stops :: string where
  \<comment> \<open>the lookahead that ends a course name\<close>
  "name_stops = ''(?=Nota/Conceito|Frequ'' @ [e_circ] @ ''ncia|Presencial|Semestral)''"

definition name_patterns :: "string \<Rightarrow> string list" where
  \<comment> \<open>the list \<open>patterns\<close>; the first one is built from the code that was found\<close>
  "name_patterns codigo =
     [codigo @ bs_s @ ''+(.*?)'' @ name_stops,
      ''Disciplina/Unidade[^>]*?([^>]*?)'' @ name_stops,
      ''Curricular'' @ bs_s @ ''*([^>]*?)'' @ name_stops]"

fun disciplina_loop :: "string list \<Rightarrow> string \<Rightarrow> string \<Rightarrow> error + string" where
  \<comment> \<open>\<open>for pattern in patterns\<close>, with the current value of \<open>disciplina\<close>\<close>
  "disciplina_loop [] txt disciplina = Inr disciplina"
| "disciplina_loop (pattern # patterns) txt disciplina =
     and_then (re_search pattern txt DOTALL) (\<lambda>disciplina_match.
       case disciplina_match of
         None \<Rightarrow> disciplina_loop patterns txt disciplina
       | Some m \<Rightarrow>
           and_then (group1 m) (\<lambda>g.
           and_then (re_sub (bs_s @ ''+'') '' '' (strip g) no_flags) (\<lambda>d1.
           and_then (re_sub (''^'' @ bs_s @ ''*Curricular'' @ bs_s @ ''*'') [] d1 no_flags) (\<lambda>d2.
             if strip d2 \<noteq> [] \<and> strip d2 \<noteq> ''N/A'' then Inr (strip d2)
             else disciplina_loop patterns txt (strip d2)))))"

definition carga_total_pattern :: string where
  \<comment> \<open>\<open>Total\s+\d+\s+\d+\s+\d+\s+\d+\s+\d+\s+\d+\s+\d+\s+(\d+)\<close>\<close>
  "carga_total_pattern =
     ''Total'' @ bs_s @ ''+'' @ bs_d @ ''+'' @ bs_s @ ''+'' @ bs_d @ ''+'' @ bs_s @ ''+''
       @ bs_d @ ''+'' @ bs_s @ ''+'' @ bs_d @ ''+'' @ bs_s @ ''+'' @ bs_d @ ''+'' @ bs_s @ ''+''
       @ bs_d @ ''+'' @ bs_s @ ''+'' @ bs_d @ ''+'' @ bs_s @ ''+('' @ bs_d @ ''+)''"

definition carga_patterns :: "string list" where
  "carga_patterns =
     [''Total'' @ bs_s @ ''+('' @ bs_d @ ''+)'' @ bs_s @ ''+AT:'',
      ''Total'' @ bs_s @ ''*:'' @ bs_s @ ''*('' @ bs_d @ ''+)'',
      ''Total'' @ bs_s @ ''+('' @ bs_d @ ''+)'' @ bs_s @ ''*h'',
      ''Total'' @ bs_s @ ''+('' @ bs_d @ ''+)'']"

fun carga_loop :: "string list \<Rightarrow> string \<Rightarrow> error + rmatch option" where
  \<comment> \<open>\<open>for pattern in carga_patterns\<close>: the first match ends the loop\<close>
  "carga_loop [] txt = Inr None"
| "carga_loop (pattern # patterns) txt =
     and_then (re_search pattern txt no_flags) (\<lambda>carga_match.
       case carga_match of
         Some m \<Rightarrow> Inr (Some m)
       | None \<Rightarrow> carga_loop patterns txt)"

definition boilerplate :: "string list" where
  "boilerplate =
     [''ordem'', ''ementa'', ''conte'' @ [u_acute] @ ''do'', ''conteudo'',
      ''resumo da altera'' @ [c_cedilla, a_tilde] @ ''o'', ''#'',
      ''minist'' @ [e_acute] @ ''rio da educa'' @ [c_cedilla, a_tilde] @ ''o'',
      ''universidade tecnol'' @ [o_acute] @ ''gica federal do paran'' @ [a_acute],
      ''campus medianeira'',
      ''informa'' @ [c_cedilla, o_tilde] @ ''es da disciplina'',
      ''por conte'' @ [u_acute] @ ''do'', ''modalidade'', ''c'' @ [o_acute] @ ''digo'',
      ''disciplina/unidade'', ''da oferta'', ''ofertado'', ''curricular'',
      ''modo de avalia'' @ [c_cedilla, a_tilde] @ ''o'', ''disciplina'', ''at'', ''ap'', ''aps'',
      ''anp'', ''apcc'', ''chead'', ''che'', ''total'']"

definition clean_chunk_text :: "string \<Rightarrow> string option \<Rightarrow> error + string" where
  "clean_chunk_text txt chunk_type =
     (if chunk_type = Some ''identificacao'' then
        and_then (re_search (''(CC|PP|CH|OP|MEIU)'' @ bs_d @ ''+[A-Z0-9]'') txt no_flags) (\<lambda>codigo_match.
        let codigo = (case codigo_match of Some m \<Rightarrow> whole m | None \<Rightarrow> ''N/A'') in
        and_then (case codigo_match of
                    None \<Rightarrow> Inr ''N/A''
                  | Some m \<Rightarrow> disciplina_loop (name_patterns codigo) txt ''N/A'') (\<lambda>disciplina.
        and_then (re_search carga_total_pattern txt no_flags) (\<lambda>first_match.
        and_then (case first_match of
                    Some m \<Rightarrow> Inr (Some m)
                  | None \<Rightarrow> carga_loop carga_patterns txt) (\<lambda>carga_total_match.
        and_then (case carga_total_match of
                    Some m \<Rightarrow> and_then (group1 m) (\<lambda>g. Inr (g @ '' Horas''))
                  | None \<Rightarrow> Inr ''N/A'') (\<lambda>carga_horaria.
        and_then (if disciplina = ''N/A'' \<or> disciplina = [] then
                    and_then (re_search (''Disciplina:'' @ bs_s @ ''*([^>]*?)(?='' @ [backslash] @ ''.|$)'')
                                txt DOTALL) (\<lambda>disciplina_match.
                      case disciplina_match of
                        Some m \<Rightarrow> and_then (group1 m) (\<lambda>g. Inr (strip g))
                      | None \<Rightarrow> Inr disciplina)
                  else Inr disciplina) (\<lambda>disciplina.
        Inr (''Informa'' @ [c_cedilla, o_tilde] @ ''es da disciplina '' @ codigo @ '' '' @ disciplina
               @ ''. Carga Hor'' @ [a_acute] @ ''ria '' @ carga_horaria)))))))
      else
        let lines = filter (\<lambda>line. strip line \<noteq> [] \<and> lower (strip line) \<notin> set boilerplate)
                      (split_on newline txt);
            joined = join [newline] lines
        in
        and_then (re_sub (''^'' @ bs_d @ ''+'' @ bs_s @ ''+'') [] joined no_flags) (\<lambda>t1.
        and_then (re_sub (''(Bibliografia Complementar'' @ bs_s @ ''*)+$'') [] t1 IGNORECASE) (\<lambda>t2.
        and_then (re_sub (bs_s @ ''+'') '' '' t2 no_flags) (\<lambda>t3.
        Inr (strip t3)))))"

definition section_fallback :: string where
  \<comment> \<open>the group and the fallback terminators: a bibliography heading, the
      revision-summary heading, or the end of the text\<close>
  "section_fallback =
     ''(.*?)(?=(?:Bibliografia|Resumo da Altera'' @ [c_cedilla, a_tilde] @ ''o|$))''"

definition extract_section_from_pdf :: "string \<Rightarrow> string \<Rightarrow> string option \<Rightarrow> error + string" where
  \<comment> \<open>\<open>if section_end:\<close> is false for \<open>None\<close> and for the empty string\<close>
  "extract_section_from_pdf txt section_start section_end =
     (let pattern =
        (case section_end of
           None \<Rightarrow> section_start @ section_fallback
         | Some e \<Rightarrow> if e \<noteq> [] then section_start @ ''(.*?)'' @ e
                      else section_start @ section_fallback)
      in and_then (re_search pattern txt DOTALL) (\<lambda>match.
           case match of
             Some m \<Rightarrow> and_then (group1 m) (\<lambda>g. Inr (strip g))
           | None \<Rightarrow> Inr []))"

type_synonym metadata = "string \<rightharpoonup> string"

definition extract_metadata_from_header :: "string \<Rightarrow> error + metadata" where
  "extract_metadata_from_header txt =
     and_then (re_search (''(CC|PP)'' @ bs_d @ ''+[A-Z]'') txt no_flags) (\<lambda>codigo_match.
     and_then (case codigo_match of
                 Some m \<Rightarrow>
                   and_then (item0 (split_on newline (drop (m_end m) txt))) (\<lambda>disciplina_text.
                     Inr [''codigo'' \<mapsto> whole m, ''disciplina'' \<mapsto> strip disciplina_text])
               | None \<Rightarrow> Inr Map.empty) (\<lambda>metadata.
     Inr (metadata
            (''modalidade'' \<mapsto> (if sublist ''Presencial'' txt then ''Presencial''
                                 else ''N'' @ [a_tilde] @ ''o Presencial''),
             ''oferta'' \<mapsto> (if sublist ''Semestral'' txt then ''Semestral'' else ''Anual'')))))"

section \<open>Chunking (notebook cell 5)\<close>

record chunk =
  chunk_text :: string        \<comment> \<open>the key \<open>'text'\<close>\<close>
  tipo :: string
  chunk_metadata :: metadata  \<comment> \<open>the key \<open>'metadata'\<close>\<close>

definition rfind :: "char \<Rightarrow> string \<Rightarrow> nat option" where
  \<comment> \<open>\<open>s.rfind(c)\<close>, with \<open>None\<close> for -1\<close>
  "rfind c s =
     (case filter (\<lambda>i. s ! i = c) (rev [0..<length s]) of
        [] \<Rightarrow> None
      | i # other \<Rightarrow> Some i)"

definition splitext :: "string \<Rightarrow> string \<times> string" where
  \<comment> \<open>\<open>os.path.splitext\<close> of \<open>posixpath\<close>: the extension starts at the last dot of the
      last path component, unless only dots come before it\<close>
  "splitext p =
     (case rfind CHR ''.'' p of
        None \<Rightarrow> (p, [])
      | Some d \<Rightarrow>
          (let start = (case rfind CHR ''/'' p of None \<Rightarrow> 0 | Some i \<Rightarrow> Suc i)
           in if start \<le> d \<and> list_ex (\<lambda>c. c \<noteq> CHR ''.'') (slice p start d)
              then (take d p, drop d p) else (p, [])))"

definition falsy :: "string option \<Rightarrow> bool" where
  \<comment> \<open>\<open>not metadata.get(key)\<close>: the key is missing or its value is empty\<close>
  "falsy v = (case v of None \<Rightarrow> True | Some x \<Rightarrow> x = [])"

definition getitem :: "metadata \<Rightarrow> string \<Rightarrow> error + string" where
  \<comment> \<open>\<open>metadata[key]\<close>\<close>
  "getitem md k = (case md k of None \<Rightarrow> Inl KeyError | Some v \<Rightarrow> Inr v)"

definition header_stops :: string where
  "header_stops = ''(?=Frequ'' @ [e_circ] @ ''ncia|Presencial|Nota|$)''"

definition derive_disciplina :: "metadata \<Rightarrow> string \<Rightarrow> error + metadata" where
  \<comment> \<open>the body of \<open>if not metadata.get('disciplina')\<close>; the first pattern is built
      from the value of \<open>codigo\<close>, as it is\<close>
  "derive_disciplina md txt =
     and_then (getitem md ''codigo'') (\<lambda>codigo.
     and_then (re_search (codigo @ ''(.*?)'' @ header_stops) txt DOTALL) (\<lambda>disciplina_match.
       case disciplina_match of
         Some m \<Rightarrow> and_then (group1 m) (\<lambda>g. Inr (md(''disciplina'' \<mapsto> strip g)))
       | None \<Rightarrow>
           and_then (re_search (''(?:Disciplina|Unidade Curricular)[:'' @ bs_s @ '']+(.*?)''
                                  @ header_stops) txt DOTALL) (\<lambda>disc_match.
             case disc_match of
               Some m \<Rightarrow> and_then (group1 m) (\<lambda>g. Inr (md(''disciplina'' \<mapsto> strip g)))
             | None \<Rightarrow> Inr (md(''disciplina'' \<mapsto> ''Disciplina '' @ codigo)))))"

definition section_chunk ::
  "string \<Rightarrow> string \<Rightarrow> string \<Rightarrow> string \<Rightarrow> metadata \<Rightarrow> error + chunk list" where
  \<comment> \<open>the shape shared by the objective, summary and bibliography blocks: extract the
      section; if it is not empty, one chunk with its cleaned text\<close>
  "section_chunk txt section_start section_end tp md =
     and_then (extract_section_from_pdf txt section_start (Some section_end)) (\<lambda>section.
       if section \<noteq> [] then
         and_then (clean_chunk_text section None) (\<lambda>cleaned.
           Inr [\<lparr>chunk_text = cleaned, tipo = tp, chunk_metadata = md\<rparr>])
       else Inr [])"

fun topico_chunks :: "string list \<Rightarrow> metadata \<Rightarrow> error + chunk list" where
  \<comment> \<open>\<open>for topico in topicos\<close>\<close>
  "topico_chunks [] md = Inr []"
| "topico_chunks (topico # topicos) md =
     and_then (clean_chunk_text (strip topico) None) (\<lambda>cleaned.
     and_then (item0 (split_ws topico)) (\<lambda>ordinal.
     and_then (topico_chunks topicos md) (\<lambda>others.
       Inr (\<lparr>chunk_text = cleaned, tipo = ''conteudo_programatico'',
             chunk_metadata = md(''secao'' \<mapsto> ''T'' @ [o_acute] @ ''pico '' @ ordinal)\<rparr>
            # others))))"

definition conteudo_programatico :: string where
  "conteudo_programatico = ''Conte'' @ [u_acute] @ ''do Program'' @ [a_acute] @ ''tico''"

definition bibliografia_basica :: string where
  "bibliografia_basica = ''Bibliografia B'' @ [a_acute] @ ''sica''"

definition topico_pattern :: string where
  \<comment> \<open>\<open>(\d+\s*.*?(?=\d+\s*|Bibliografia|$))\<close>\<close>
  "topico_pattern =
     ''('' @ bs_d @ ''+'' @ bs_s @ ''*.*?(?='' @ bs_d @ ''+'' @ bs_s @ ''*|Bibliografia|$))''"

definition header_metadata :: "string \<Rightarrow> string \<Rightarrow> error + metadata" where
  \<comment> \<open>the first block of \<open>process_pdf_content\<close>: the metadata of the document, with
      \<open>codigo\<close> and \<open>disciplina\<close> filled in when the header did not give them\<close>
  "header_metadata txt filename =
     and_then (extract_metadata_from_header txt) (\<lambda>md0.
     let md1 = (if falsy (md0 ''codigo'') then md0(''codigo'' \<mapsto> fst (splitext filename)) else md0) in
     if falsy (md1 ''disciplina'') then derive_disciplina md1 txt else Inr md1)"

definition topicos_chunks :: "string \<Rightarrow> metadata \<Rightarrow> error + chunk list" where
  \<comment> \<open>the block for the syllabus content\<close>
  "topicos_chunks txt md =
     and_then (extract_section_from_pdf txt conteudo_programatico (Some ''Bibliografia'')) (\<lambda>conteudo.
       if conteudo \<noteq> [] then
         and_then (re_findall1 topico_pattern conteudo DOTALL) (\<lambda>topicos.
           topico_chunks topicos md)
       else Inr [])"

definition section_chunks :: "string \<Rightarrow> metadata \<Rightarrow> error + chunk list" where
  \<comment> \<open>the chunks that are appended after the identification chunk, in the order of
      the code\<close>
  "section_chunks txt md =
     and_then (section_chunk txt ''Objetivo'' ''Ementa'' ''objetivo'' md) (\<lambda>objetivo.
     and_then (section_chunk txt ''Ementa'' conteudo_programatico ''ementa'' md) (\<lambda>ementa.
     and_then (topicos_chunks txt md) (\<lambda>topicos.
     and_then (section_chunk txt bibliografia_basica ''Bibliografia Complementar''
                 ''bibliografia_basica'' md) (\<lambda>basica.
     and_then (section_chunk txt ''Bibliografia Complementar'' ''Resumo''
                 ''bibliografia_complementar'' md) (\<lambda>complementar.
     Inr (objetivo @ ementa @ topicos @ basica @ complementar))))))"

definition process_pdf_content :: "string \<Rightarrow> string \<Rightarrow> error + metadata \<times> chunk list" where
  "process_pdf_content txt filename =
     and_then (header_metadata txt filename) (\<lambda>md.
     and_then (clean_chunk_text (take 500 txt) (Some ''identificacao'')) (\<lambda>ident.
     and_then (section_chunks txt md) (\<lambda>others.
     Inr (md, \<lparr>chunk_text = ident, tipo = ''identificacao'', chunk_metadata = md\<rparr> # others))))"

section \<open>Insertion into the collections (notebook cell 6)\<close>

text \<open>
  The collaborators of the driver are outside the repository and enter the model as
  parameters: \<open>pdf_text\<close> is what \<open>extract_text_from_pdf\<close> returns for a path
  (\<open>None\<close> when the PDF library fails), a model is its name with its \<open>encode\<close>
  function, which may raise, and the directory listing is a list of names, or
  \<open>None\<close> for a directory that does not exist. Paths are POSIX paths. What the code
  prints is kept as a list of events.
\<close>

record 'v stored =
  rec_id :: string
  rec_embedding :: 'v
  rec_document :: string
  rec_metadata :: metadata

record 'v collection =
  coll_name :: string
  coll_records :: "'v stored list"

type_synonym 'v model = "string \<times> (string \<Rightarrow> error + 'v)"

datatype event =
    DirectoryNotFound string
  | NoPdfFound
  | Found nat string
  | SkippedNoText string
  | Processing string
  | Disciplina string
  | Codigo string
  | Inserting string
  | Added nat
  | ErrorProcessing string error
  | Finished

record 'v state =
  collections :: "'v collection list"
  printed :: "event list"
  chunks_por_disciplina :: "string \<rightharpoonup> chunk list"

definition collection_add :: "'v collection \<Rightarrow> 'v stored \<Rightarrow> error + 'v collection" where
  \<comment> \<open>Modelled from the spec: \<open>collection.add\<close> belongs to the vector store, which is
      not code of the repository; section 6 of the specification says that insert
      appends the record and must reject a duplicate id.\<close>
  "collection_add c r =
     (if rec_id r \<in> set (map rec_id (coll_records c)) then Inl DuplicateIDError
      else Inr (c\<lparr>coll_records := coll_records c @ [r]\<rparr>))"

definition chunk_id :: "string \<Rightarrow> string \<Rightarrow> nat \<Rightarrow> string \<Rightarrow> string" where
  \<comment> \<open>\<open>f"{codigo}_{chunk['tipo']}_{i}_{model_name}"\<close>\<close>
  "chunk_id codigo tp i model_name = codigo @ ''_'' @ tp @ ''_'' @ digits_of i @ ''_'' @ model_name"

fun add_chunks ::
  "string \<Rightarrow> (string \<Rightarrow> error + 'v) \<Rightarrow> string \<Rightarrow> string \<Rightarrow> nat \<Rightarrow> chunk list \<Rightarrow> 'v collection
     \<Rightarrow> error option \<times> 'v collection" where
  \<comment> \<open>\<open>for i, chunk in enumerate(chunks)\<close>; the result is the collection as the loop
      left it, with the exception that ended the loop, if one did\<close>
  "add_chunks model_name encode codigo source i [] c = (None, c)"
| "add_chunks model_name encode codigo source i (chunk # chunks) c =
     (case encode (chunk_text chunk) of
        Inl e \<Rightarrow> (Some e, c)
      | Inr embedding \<Rightarrow>
          (case collection_add c
                  \<lparr>rec_id = chunk_id codigo (tipo chunk) i model_name,
                   rec_embedding = embedding,
                   rec_document = chunk_text chunk,
                   rec_metadata = (chunk_metadata chunk)
                     (''source'' \<mapsto> source, ''tipo'' \<mapsto> tipo chunk, ''codigo'' \<mapsto> codigo)\<rparr> of
             Inl e \<Rightarrow> (Some e, c)
           | Inr c' \<Rightarrow> add_chunks model_name encode codigo source (Suc i) chunks c'))"

fun add_to_collections ::
  "'v model list \<Rightarrow> nat \<Rightarrow> string \<Rightarrow> string \<Rightarrow> chunk list \<Rightarrow> 'v state \<Rightarrow> error option \<times> 'v state" where
  \<comment> \<open>\<open>for (model_name, embedding_model), collection in zip(models, collections)\<close>,
      from the \<open>k\<close>-th collection on\<close>
  "add_to_collections [] k codigo source chunks st = (None, st)"
| "add_to_collections ((model_name, encode) # models) k codigo source chunks st =
     (if k < length (collections st) then
        (let c = collections st ! k;
             st1 = st\<lparr>printed := printed st @ [Inserting (coll_name c)]\<rparr>
         in case add_chunks model_name encode codigo source 0 chunks c of
              (Some e, c') \<Rightarrow> (Some e, st1\<lparr>collections := (collections st1)[k := c']\<rparr>)
            | (None, c') \<Rightarrow>
                add_to_collections models (Suc k) codigo source chunks
                  (st1\<lparr>collections := (collections st1)[k := c'],
                       printed := printed st1 @ [Added (length chunks)]\<rparr>))
      else (None, st))"

definition basename :: "string \<Rightarrow> string" where
  "basename p = (case rfind CHR ''/'' p of None \<Rightarrow> p | Some i \<Rightarrow> drop (Suc i) p)"

definition path_join :: "string \<Rightarrow> string \<Rightarrow> string" where
  "path_join a b =
     (if b \<noteq> [] \<and> hd b = CHR ''/'' then b
      else if a = [] \<or> last a = CHR ''/'' then a @ b
      else a @ ''/'' @ b)"

definition endswith :: "string \<Rightarrow> string \<Rightarrow> bool" where
  "endswith s suf = suffix suf s"

definition get_or :: "metadata \<Rightarrow> string \<Rightarrow> string \<Rightarrow> string" where
  \<comment> \<open>\<open>metadata.get(key, default)\<close>\<close>
  "get_or md k d = (case md k of None \<Rightarrow> d | Some v \<Rightarrow> v)"

definition process_file ::
  "(string \<Rightarrow> string option) \<Rightarrow> 'v model list \<Rightarrow> string \<Rightarrow> 'v state \<Rightarrow> error option \<times> 'v state" where
  \<comment> \<open>the body of the \<open>try\<close> in \<open>process_all_pdfs_in_directory\<close>\<close>
  "process_file pdf_text models pdf_file st =
     (let source = basename pdf_file in
      case pdf_text pdf_file of
        None \<Rightarrow> (None, st)
      | Some txt \<Rightarrow>
          if txt = [] then (None, st)
          else
            (case process_pdf_content txt source of
               Inl e \<Rightarrow> (Some e, st)
             | Inr (md, chunks) \<Rightarrow>
                 (case getitem md ''codigo'' of
                    Inl e \<Rightarrow> (Some e, st)
                  | Inr codigo \<Rightarrow>
                      add_to_collections models 0 codigo source chunks
                        (st\<lparr>chunks_por_disciplina := (chunks_por_disciplina st)(codigo \<mapsto> chunks),
                            printed := printed st @
                              [Processing source, Disciplina (get_or md ''disciplina'' ''N/A''),
                               Codigo codigo]\<rparr>))))"

fun process_files ::
  "(string \<Rightarrow> string option) \<Rightarrow> 'v model list \<Rightarrow> string list \<Rightarrow> 'v state \<Rightarrow> 'v state" where
  \<comment> \<open>\<open>for pdf_file in pdf_files\<close> with its \<open>try\<close> and \<open>except Exception\<close>\<close>
  "process_files pdf_text models [] st = st"
| "process_files pdf_text models (pdf_file # pdf_files) st =
     (case process_file pdf_text models pdf_file st of
        (None, st') \<Rightarrow> process_files pdf_text models pdf_files st'
      | (Some e, st') \<Rightarrow>
          process_files pdf_text models pdf_files
            (st'\<lparr>printed := printed st' @ [ErrorProcessing pdf_file e]\<rparr>))"

definition process_all_pdfs_in_directory ::
  "(string \<Rightarrow> string option) \<Rightarrow> string list option \<Rightarrow> string \<Rightarrow> 'v model list \<Rightarrow> 'v collection list
     \<Rightarrow> 'v state" where
  \<comment> \<open>the returned dictionary is the field \<open>chunks_por_disciplina\<close> of the result\<close>
  "process_all_pdfs_in_directory pdf_text listing pdf_dir models colls =
     (let st = \<lparr>collections = colls, printed = [], chunks_por_disciplina = Map.empty\<rparr> in
      case listing of
        None \<Rightarrow> st\<lparr>printed := [DirectoryNotFound pdf_dir]\<rparr>
      | Some names \<Rightarrow>
          (let pdf_files = map (path_join pdf_dir) (filter (\<lambda>f. endswith (lower f) ''.pdf'') names)
           in if pdf_files = [] then st\<lparr>printed := [NoPdfFound]\<rparr>
              else
                (let st' = process_files pdf_text models pdf_files
                             (st\<lparr>printed := [Found (length pdf_files) pdf_dir]\<rparr>)
                 in st'\<lparr>printed := printed st' @ [Finished]\<rparr>)))"

definition process_pdf_and_add_to_collections ::
  "(string \<Rightarrow> string option) \<Rightarrow> string \<Rightarrow> 'v model list \<Rightarrow> 'v state \<Rightarrow> 'v state" where
  \<comment> \<open>the function for one PDF; here \<open>metadata['codigo']\<close> is overwritten with the stem
      of the file name before the records are built\<close>
  "process_pdf_and_add_to_collections pdf_text pdf_path models st =
     (let source = basename pdf_path;
          attempt =
            (case pdf_text pdf_path of
               None \<Rightarrow> (None, st\<lparr>printed := printed st @ [SkippedNoText pdf_path]\<rparr>)
             | Some txt \<Rightarrow>
                 if txt = [] then (None, st\<lparr>printed := printed st @ [SkippedNoText pdf_path]\<rparr>)
                 else
                   (case process_pdf_content txt source of
                      Inl e \<Rightarrow> (Some e, st)
                    | Inr (md0, chunks) \<Rightarrow>
                        (let md = md0(''source'' \<mapsto> source, ''codigo'' \<mapsto> fst (splitext source)) in
                         case getitem md ''codigo'' of
                           Inl e \<Rightarrow> (Some e, st)
                         | Inr codigo \<Rightarrow>
                             add_to_collections models 0 codigo source chunks
                               (st\<lparr>printed := printed st @
                                    [Processing source, Disciplina (get_or md ''disciplina'' ''N/A''),
                                     Codigo codigo]\<rparr>))))
      in case attempt of
           (None, st') \<Rightarrow> st'
         | (Some e, st') \<Rightarrow> st'\<lparr>printed := printed st' @ [ErrorProcessing pdf_path e]\<rparr>)"

section \<open>Notions used in the statements\<close>

definition plain :: "char \<Rightarrow> bool" where
  \<comment> \<open>a character that stands for itself in a pattern\<close>
  "plain c = (c \<notin> set ''.^$|(){[*+?'' \<and> c \<noteq> backslash)"

fun occurs_after :: "string \<Rightarrow> string \<Rightarrow> string \<Rightarrow> bool" where
  \<comment> \<open>some occurrence of \<open>s\<close> in the text is followed, later on, by an occurrence of \<open>e\<close>\<close>
  "occurs_after s e [] = (s = [] \<and> e = [])"
| "occurs_after s e (c # cs) =
     ((prefix s (c # cs) \<and> sublist e (drop (length s) (c # cs))) \<or> occurs_after s e cs)"

definition cons_toks :: "token list \<Rightarrow> error + token list \<Rightarrow> error + token list" where
  "cons_toks ts r = (case r of Inl e \<Rightarrow> Inl e | Inr us \<Rightarrow> Inr (ts @ us))"

definition grows :: "'v state \<Rightarrow> 'v state \<Rightarrow> bool" where
  \<comment> \<open>nothing is taken back: each collection keeps its name and its records, in order,
      and may have more at the end; the printed lines likewise\<close>
  "grows st st' =
     (length (collections st') = length (collections st)
      \<and> list_all2 (\<lambda>c c'. prefix (coll_records c) (coll_records c') \<and> coll_name c' = coll_name c)
            (collections st) (collections st')
      \<and> prefix (printed st) (printed st'))"

definition two_empty :: "nat state" where
  "two_empty = \<lparr>collections = [\<lparr>coll_name = ''ementas-disciplinas_m1'', coll_records = []\<rparr>,
                                \<lparr>coll_name = ''ementas-disciplinas_m2'', coll_records = []\<rparr>],
                 printed = [], chunks_por_disciplina = Map.empty\<rparr>"

definition tipos :: "string list" where
  "tipos = [''identificacao'', ''objetivo'', ''ementa'', ''conteudo_programatico'',
            ''bibliografia_basica'', ''bibliografia_complementar'']"

definition digits_value :: "string \<Rightarrow> nat" where
  "digits_value ds = foldl (\<lambda>a c. 10 * a + (of_char c - 48)) 0 ds"

text \<open>
  The words an expression can consume, without regard to the order in which the matcher
  tries them: lookaheads and anchors consume nothing. Every state the matcher reaches
  has consumed a word of this language.
\<close>

inductive_set star :: "string set \<Rightarrow> string set" for A :: "string set" where
  star_nil: "[] \<in> star A"
| star_step: "u \<in> A \<Longrightarrow> v \<in> star A \<Longrightarrow> u @ v \<in> star A"

definition char_lang :: "(char \<Rightarrow> bool) \<Rightarrow> string set" where
  "char_lang P = {[c] | c. P c}"

fun lang :: "flags \<Rightarrow> regex \<Rightarrow> string set"
  and lang_seq :: "flags \<Rightarrow> regex list \<Rightarrow> string set"
  and lang_alt :: "flags \<Rightarrow> regex list \<Rightarrow> string set" where
  "lang fl (Lit c) = char_lang (\<lambda>x. if ignorecase fl then lower_char x = lower_char c else x = c)"
| "lang fl Any = char_lang (\<lambda>x. if dotall fl then True else x \<noteq> newline)"
| "lang fl Space = char_lang isspace"
| "lang fl Digit = char_lang isdigit"
| "lang fl (Cls neg items) = char_lang (\<lambda>x. list_ex (citem_match x) items \<noteq> neg)"
| "lang fl Bol = {[]}"
| "lang fl Eol = {[]}"
| "lang fl (Seq rs) = lang_seq fl rs"
| "lang fl (Alt rs) = lang_alt fl rs"
| "lang fl (Rep q g r) =
     (case q of
        Star \<Rightarrow> star (lang fl r)
      | Plus \<Rightarrow> {u @ v | u v. u \<in> lang fl r \<and> v \<in> star (lang fl r)}
      | Opt \<Rightarrow> insert [] (lang fl r))"
| "lang fl (Grp n r) = lang fl r"
| "lang fl (Look r) = {[]}"
| "lang_seq fl [] = {[]}"
| "lang_seq fl (r # rs) = {u @ v | u v. u \<in> lang fl r \<and> v \<in> lang_seq fl rs}"
| "lang_alt fl [] = {}"
| "lang_alt fl (r # rs) = lang fl r \<union> lang_alt fl rs"

definition consumed :: "mstate \<Rightarrow> mstate \<Rightarrow> string \<Rightarrow> bool" where
  "consumed st st' w = (fst (snd st) = w @ fst (snd st') \<and> fst st' = fst st + length w)"

fun groups_of :: "regex \<Rightarrow> nat set" where
  "groups_of (Grp n r) = insert n (groups_of r)"
| "groups_of (Seq rs) = (\<Union>r \<in> set rs. groups_of r)"
| "groups_of (Alt rs) = (\<Union>r \<in> set rs. groups_of r)"
| "groups_of (Rep q g r) = groups_of r"
| "groups_of (Look r) = groups_of r"
| "groups_of r = {}"

fun split_group :: "nat \<Rightarrow> regex list \<Rightarrow> (regex list \<times> regex \<times> regex list) option" where
  "split_group n [] = None"
| "split_group n (r # rs) =
     (case r of
        Grp k body \<Rightarrow>
          if k = n then Some ([], body, rs)
          else map_option (\<lambda>(a, b, c). (r # a, b, c)) (split_group n rs)
      | _ \<Rightarrow> map_option (\<lambda>(a, b, c). (r # a, b, c)) (split_group n rs))"

definition group1_body :: "regex \<Rightarrow> regex option" where
  "group1_body r =
     (case r of
        Seq rs \<Rightarrow>
          (case split_group 1 rs of
             Some (pre, body, post) \<Rightarrow>
               if 1 \<in> (\<Union>x \<in> set post. groups_of x) then None else Some body
           | None \<Rightarrow> None)
      | _ \<Rightarrow> None)"

definition good_pattern :: "flags \<Rightarrow> string \<Rightarrow> bool" where
  "good_pattern fl pat =
     (case re_compile fl pat of Inr r \<Rightarrow> group1_body r \<noteq> None | Inl e \<Rightarrow> False)"

definition code_regex :: "string list \<Rightarrow> citem list \<Rightarrow> regex" where
  "code_regex pfxs items =
     Seq [Grp 1 (Alt (map (\<lambda>p. Seq (map Lit p)) pfxs)), Rep Plus True Digit, Cls False items]"

text \<open>
  The shape of a course code, in the words of the patterns of the source: one of the
  prefixes, then one or more digits, then one character of the final set.
\<close>

definition code_shape :: "string list \<Rightarrow> citem list \<Rightarrow> string \<Rightarrow> bool" where
  "code_shape pfxs items s =
     list_ex (\<lambda>p. prefix p s \<and>
                (let r = drop (length p) s
                 in 2 \<le> length r \<and> list_all isdigit (butlast r)
                    \<and> list_ex (citem_match (last r)) items)) pfxs"

definition cleaner_prefixes :: "string list" where
  "cleaner_prefixes = [''CC'', ''PP'', ''CH'', ''OP'', ''MEIU'']"

definition cleaner_last :: "citem list" where
  "cleaner_last = [CRange CHR ''A'' CHR ''Z'', CRange CHR ''0'' CHR ''9'']"


definition ident_text :: "string \<Rightarrow> string \<Rightarrow> string \<Rightarrow> string" where
  \<comment> \<open>the sentence as the code composes it: the last part is the hours with
      \<open>Horas\<close>, or the sentinel alone\<close>
  "ident_text codigo disciplina carga_horaria =
     ''Informa'' @ [c_cedilla, o_tilde] @ ''es da disciplina '' @ codigo @ '' '' @ disciplina
       @ ''. Carga Hor'' @ [a_acute] @ ''ria '' @ carga_horaria"

definition extractor_prefixes :: "string list" where
  "extractor_prefixes = [''CC'', ''PP'']"

definition extractor_last :: "citem list" where
  "extractor_last = [CRange CHR ''A'' CHR ''Z'']"


text \<open>
  The course-code pattern in the words of the specification: a prefix of the set, then
  digits, then an optional final capital letter.
\<close>

definition spec_code_shape :: "string list \<Rightarrow> string \<Rightarrow> bool" where
  "spec_code_shape pfxs s =
     list_ex (\<lambda>p. prefix p s \<and>
                (let r = drop (length p) s
                 in takeWhile isdigit r \<noteq> []
                    \<and> (case dropWhile isdigit r of
                          [] \<Rightarrow> True
                        | c # cs \<Rightarrow> cs = [] \<and> list_ex (citem_match c) extractor_last))) pfxs"

text \<open>
  The course code that starts at the head of a text, for the pattern of the metadata
  extractor, and the leftmost position of a text where one starts.
\<close>

definition code_at :: "string \<Rightarrow> string option" where
  "code_at s =
     (if prefix ''CC'' s \<or> prefix ''PP'' s then
        (let r = drop 2 s
         in case dropWhile isdigit r of
              [] \<Rightarrow> None
            | c # cs \<Rightarrow>
                if takeWhile isdigit r \<noteq> [] \<and> list_ex (citem_match c) extractor_last
                then Some (take 2 s @ takeWhile isdigit r @ [c])
                else None)
      else None)"

fun find_code_from :: "nat \<Rightarrow> string \<Rightarrow> (nat \<times> string) option" where
  "find_code_from p [] = None"
| "find_code_from p (c # cs) =
     (case code_at (c # cs) of
        Some code \<Rightarrow> Some (p, code)
      | None \<Rightarrow> find_code_from (Suc p) cs)"

text \<open>
  What the substitution of \<open>\s+\<close> by one space computes: every run of whitespace becomes
  one space. The flag says that the scan is inside a run.
\<close>

fun collapse_ws :: "bool \<Rightarrow> string \<Rightarrow> string" where
  "collapse_ws in_run [] = []"
| "collapse_ws in_run (c # cs) =
     (if isspace c then (if in_run then collapse_ws True cs else CHR '' '' # collapse_ws True cs)
      else c # collapse_ws False cs)"

text \<open>
  A text where every whitespace character is a space and no two spaces are adjacent,
  and one that moreover neither starts nor ends with whitespace.
\<close>

definition single_spaced :: "string \<Rightarrow> bool" where
  "single_spaced s = ((\<forall>c \<in> set s. isspace c \<longrightarrow> c = CHR '' '') \<and> \<not> sublist ''  '' s)"

definition normal :: "string \<Rightarrow> bool" where
  "normal s = (single_spaced s \<and> (s \<noteq> [] \<longrightarrow> \<not> isspace (hd s) \<and> \<not> isspace (last s)))"

text \<open>
  A text that starts with one or more digits followed by whitespace, which is what the
  pattern \<open>^\d+\s+\<close> removes; and the regular expression that the pattern
  \<open>(Bibliografia Complementar\s*)+$\<close> compiles to.
\<close>

definition ordinal_prefix :: "string \<Rightarrow> bool" where
  "ordinal_prefix s =
     (case dropWhile isdigit s of
        [] \<Rightarrow> False
      | x # xs \<Rightarrow> if takeWhile isdigit s = [] then False else isspace x)"

definition heading_pattern :: regex where
  "heading_pattern =
     Seq [Rep Plus True (Grp 1 (Seq (map Lit ''Bibliografia Complementar'' @ [Rep Star True Space]))),
          Eol]"

text \<open>
  The record that the ingestion loops build for chunk \<open>i\<close> of a document and one model;
  the records of a list of chunks, each with the embedding its text was given; and the
  step that raises: the embedding of the chunk, or the insertion of its record.
\<close>

definition chunk_record :: "string \<Rightarrow> 'v \<Rightarrow> string \<Rightarrow> string \<Rightarrow> nat \<Rightarrow> chunk \<Rightarrow> 'v stored" where
  "chunk_record model_name embedding codigo source i chunk =
     \<lparr>rec_id = chunk_id codigo (tipo chunk) i model_name,
      rec_embedding = embedding,
      rec_document = chunk_text chunk,
      rec_metadata = (chunk_metadata chunk)
        (''source'' \<mapsto> source, ''tipo'' \<mapsto> tipo chunk, ''codigo'' \<mapsto> codigo)\<rparr>"

definition records_of :: "'v model \<Rightarrow> string \<Rightarrow> string \<Rightarrow> nat \<Rightarrow> chunk list \<Rightarrow> 'v stored list \<Rightarrow> bool" where
  "records_of model codigo source i chunks recs =
     (length recs = length chunks
      \<and> (\<forall>q < length chunks. \<exists>v.
            snd model (chunk_text (chunks ! q)) = Inr v
            \<and> recs ! q = chunk_record (fst model) v codigo source (i + q) (chunks ! q)))"

definition fails_at :: "'v model \<Rightarrow> string \<Rightarrow> string \<Rightarrow> nat \<Rightarrow> chunk \<Rightarrow> 'v collection \<Rightarrow> error \<Rightarrow> bool" where
  "fails_at model codigo source i chunk c e =
     (snd model (chunk_text chunk) = Inl e
      \<or> (\<exists>v. snd model (chunk_text chunk) = Inr v
            \<and> collection_add c (chunk_record (fst model) v codigo source i chunk) = Inl e))"

text \<open>
  The collections when chunk \<open>n\<close> failed for the \<open>k\<close>-th model: every collection has its
  name and its earlier records; the collections before the \<open>k\<close>-th have gained the
  records of all chunks, the \<open>k\<close>-th those of the chunks before \<open>n\<close>, the later ones
  nothing. The first form is the one for a loop that starts at the collection \<open>k0\<close>.
\<close>

definition kept_of :: "'v model list \<Rightarrow> nat \<Rightarrow> string \<Rightarrow> string \<Rightarrow> chunk list \<Rightarrow> nat \<Rightarrow> nat
    \<Rightarrow> 'v collection list \<Rightarrow> 'v collection list \<Rightarrow> bool" where
  "kept_of models k0 codigo source chunks k n colls colls' =
     (length colls' = length colls
      \<and> (\<forall>j < length colls.
            coll_name (colls' ! j) = coll_name (colls ! j)
            \<and> (\<exists>recs. coll_records (colls' ! j) = coll_records (colls ! j) @ recs
                  \<and> (if j < k0 \<or> k < j then recs = []
                      else records_of (models ! (j - k0)) codigo source 0
                             (take (if j < k then length chunks else n) chunks) recs))))"

definition kept_until_failure :: "'v model list \<Rightarrow> string \<Rightarrow> string \<Rightarrow> chunk list \<Rightarrow> nat \<Rightarrow> nat
    \<Rightarrow> 'v collection list \<Rightarrow> 'v collection list \<Rightarrow> bool" where
  "kept_until_failure models codigo source chunks k n colls colls' =
     (length colls' = length colls
      \<and> (\<forall>j < length colls.
            coll_name (colls' ! j) = coll_name (colls ! j)
            \<and> (\<exists>recs. coll_records (colls' ! j) = coll_records (colls ! j) @ recs
                  \<and> (if j < k then records_of (models ! j) codigo source 0 chunks recs
                      else if j = k then records_of (models ! j) codigo source 0 (take n chunks) recs
                      else recs = []))))"

text \<open>
  Two documents and two models for a run: the second model raises on the text of the
  second chunk of the first document.
\<close>

definition redes_pdfs :: "string \<Rightarrow> string option" where
  "redes_pdfs p = (if p = ''d/a.pdf'' then Some ''Objetivo redes Ementa''
                   else if p = ''d/b.pdf'' then Some ''y'' else None)"

definition redes_models :: "nat model list" where
  "redes_models = [(''m1'', \<lambda>t. Inr 0), (''m2'', \<lambda>t. if t = ''redes'' then Inl EmbeddingError else Inr 1)]"

text \<open>
  The course code that the pattern of the cleaner, \<open>(CC|PP|CH|OP|MEIU)\d+[A-Z0-9]\<close>, takes
  at the head of a text: the prefix, all the digits that follow and, if there is one, the
  capital letter after them; without such a letter, the digits alone when there are two
  or more, the last one being the final character. And the leftmost position of a text
  where a code starts, with that code.
\<close>

definition cleaner_code_at :: "string \<Rightarrow> string option" where
  "cleaner_code_at s =
     (case List.find (\<lambda>w. prefix w s) cleaner_prefixes of
        None \<Rightarrow> None
      | Some w \<Rightarrow>
          (let r = drop (length w) s; ds = takeWhile isdigit r
           in case dropWhile isdigit r of
                [] \<Rightarrow> if 2 \<le> length ds then Some (w @ ds) else None
              | c # cs \<Rightarrow>
                  if ds \<noteq> [] \<and> list_ex (citem_match c) cleaner_last then Some (w @ ds @ [c])
                  else if 2 \<le> length ds then Some (w @ ds)
                  else None))"

fun find_cleaner_from :: "nat \<Rightarrow> string \<Rightarrow> (nat \<times> string) option" where
  "find_cleaner_from p [] = None"
| "find_cleaner_from p (c # cs) =
     (case cleaner_code_at (c # cs) of
        Some code \<Rightarrow> Some (p, code)
      | None \<Rightarrow> find_cleaner_from (Suc p) cs)"



definition spec_code :: "string \<Rightarrow> string" where
  "spec_code t = (case find_cleaner_from 0 t of Some (b, code) \<Rightarrow> code | None \<Rightarrow> ''N/A'')"







section \<open>Facts about the parser and the matcher\<close>

lemma tokens_plain:
  "list_all plain w \<Longrightarrow> tokens Normal (w @ rest) = cons_toks (map TChar w) (tokens Normal rest)"
proof (induction w)
  case Nil
  show ?case by (simp add: cons_toks_def split: sum.splits)
next
  case (Cons c w)
  then have c: "plain c" and w: "list_all plain w" by simp_all
  from c have "tokens Normal (c # (w @ rest)) = cons_tok (TChar c) (tokens Normal (w @ rest))"
    by (simp add: plain_def quant_of_def)
  with Cons.IH[OF w] show ?case
    by (simp add: cons_tok_def cons_toks_def split: sum.splits)
qed

lemma parse_chars:
  "parse (map TChar w @ ts) stk alts cur n = parse ts stk alts (rev (map Lit w) @ cur) n"
  by (induction w arbitrary: cur) simp_all

lemma parse_chars_end:
  "parse (map TChar w) stk alts cur n = parse [] stk alts (rev (map Lit w) @ cur) n"
  using parse_chars[of w "[]" stk alts cur n] by simp

lemma compile_section_end:
  assumes "list_all plain w" "list_all plain e"
  shows "re_compile DOTALL (w @ ''(.*?)'' @ e) =
           Inr (Seq (map Lit w @ Grp 1 (Seq [Rep Star False Any]) # map Lit e))"
proof -
  have e: "tokens Normal e = Inr (map TChar e)"
    using tokens_plain[OF assms(2), of "[]"] by (simp add: cons_toks_def)
  have "tokens Normal (w @ ''(.*?)'' @ e) =
          Inr (map TChar w @ [TOpen, TAny, TQuant Star False, TClose] @ map TChar e)"
    using e by (simp add: tokens_plain[OF assms(1)] cons_toks_def cons_tok_def quant_of_def)
  then show ?thesis
    by (simp add: re_compile_def parse_chars parse_chars_end quantify_def wrap_def close_alts_def
        DOTALL_def list_ex_iff)
qed

lemma compile_section_fallback:
  assumes "list_all plain w"
  shows "re_compile DOTALL (w @ section_fallback) =
           Inr (Seq (map Lit w @
                  [Grp 1 (Seq [Rep Star False Any]),
                   Look (Seq [Alt [Seq (map Lit ''Bibliografia''),
                                   Seq (map Lit (''Resumo da Altera'' @ [c_cedilla, a_tilde] @ ''o'')),
                                   Seq [Eol]]])]))"
proof -
  have "tokens Normal (w @ section_fallback) =
          cons_toks (map TChar w) (tokens Normal section_fallback)"
    by (rule tokens_plain[OF assms])
  then show ?thesis
    by (simp add: section_fallback_def re_compile_def parse_chars quantify_def wrap_def
        close_alts_def DOTALL_def list_ex_iff cons_toks_def cons_tok_def quant_of_def)
qed

lemma matches_lits:
  "\<not> ignorecase fl \<Longrightarrow>
   matches_seq fl (map Lit w @ rs) (p, rest, caps) =
     (if prefix w rest then matches_seq fl rs (p + length w, drop (length w) rest, caps) else [])"
proof (induction w arbitrary: p rest)
  case Nil
  then show ?case by simp
next
  case (Cons c w)
  show ?case
  proof (cases rest)
    case Nil
    then show ?thesis by (simp add: one_char_def)
  next
    case (Cons x xs)
    with Cons.prems Cons.IH[OF Cons.prems, of "Suc p" xs] show ?thesis
      by (simp add: one_char_def)
  qed
qed

lemma search_at_None:
  "search_at fl r False p rest = None \<longleftrightarrow>
     (\<forall>k \<le> length rest. matches fl r (p + k, drop k rest, Map.empty) = [])"
proof (induction rest arbitrary: p)
  case Nil
  then show ?case by (auto simp: acceptable_def split: list.splits)
next
  case (Cons c cs)
  have "(\<forall>k \<le> length (c # cs). matches fl r (p + k, drop k (c # cs), Map.empty) = []) \<longleftrightarrow>
        matches fl r (p, c # cs, Map.empty) = [] \<and>
        (\<forall>k \<le> length cs. matches fl r (Suc p + k, drop k cs, Map.empty) = [])"
    (is "?L \<longleftrightarrow> ?R")
  proof
    assume L: ?L
    have "matches fl r (p, c # cs, Map.empty) = []" using L[rule_format, of 0] by simp
    moreover have "\<forall>k \<le> length cs. matches fl r (Suc p + k, drop k cs, Map.empty) = []"
    proof (intro allI impI)
      fix k assume "k \<le> length cs"
      then show "matches fl r (Suc p + k, drop k cs, Map.empty) = []"
        using L[rule_format, of "Suc k"] by simp
    qed
    ultimately show ?R by simp
  next
    assume R: ?R
    show ?L
    proof (intro allI impI)
      fix k assume k: "k \<le> length (c # cs)"
      show "matches fl r (p + k, drop k (c # cs), Map.empty) = []"
      proof (cases k)
        case 0
        then show ?thesis using R by simp
      next
        case (Suc j)
        then show ?thesis using R k by simp
      qed
    qed
  qed
  with Cons.IH[of "Suc p"] show ?case
    by (auto simp: acceptable_def split: list.splits)
qed


lemma occurs_after_iff:
  "occurs_after s e t \<longleftrightarrow> (\<exists>a b c. t = a @ s @ b @ e @ c)"
proof (induction t)
  case Nil
  show ?case by auto
next
  case (Cons x xs)
  have "(\<exists>a b c. x # xs = a @ s @ b @ e @ c) \<longleftrightarrow>
        (\<exists>b c. x # xs = s @ b @ e @ c) \<or> (\<exists>a b c. xs = a @ s @ b @ e @ c)"
    (is "?L \<longleftrightarrow> ?A \<or> ?B")
  proof
    assume ?L
    then obtain a b c where eq: "x # xs = a @ s @ b @ e @ c" by blast
    show "?A \<or> ?B"
    proof (cases a)
      case Nil
      with eq show ?thesis by auto
    next
      case (Cons y ys)
      with eq have "xs = ys @ s @ b @ e @ c" by simp
      then show ?thesis by blast
    qed
  next
    assume "?A \<or> ?B"
    then show ?L
    proof
      assume ?A
      then obtain b c where "x # xs = [] @ s @ b @ e @ c" by auto
      then show ?L by blast
    next
      assume ?B
      then obtain a b c where "xs = a @ s @ b @ e @ c" by blast
      then have "x # xs = (x # a) @ s @ b @ e @ c" by simp
      then show ?L by blast
    qed
  qed
  moreover have "(prefix s (x # xs) \<and> sublist e (drop (length s) (x # xs))) \<longleftrightarrow>
                 (\<exists>b c. x # xs = s @ b @ e @ c)"
    by (auto simp: prefix_def sublist_def) blast+
  ultimately show ?case using Cons.IH by simp
qed

lemma prefix_drop_sublist: "prefix w (drop k t) \<Longrightarrow> sublist w t"
proof -
  assume "prefix w (drop k t)"
  then obtain z where "drop k t = w @ z" by (auto simp: prefix_def)
  then have "t = take k t @ w @ z" by (metis append_take_drop_id)
  then show ?thesis unfolding sublist_def by blast
qed

lemma search_regex_no_match:
  assumes "\<And>k. k \<le> length s \<Longrightarrow> matches fl r (k, drop k s, Map.empty) = []"
  shows "search_regex fl r s = None"
proof -
  have "search_at fl r False 0 s = None"
    using assms by (simp add: search_at_None)
  then show ?thesis by (simp add: search_regex_def)
qed

lemma collection_add_records:
  "collection_add c r = Inr c' \<Longrightarrow> coll_records c' = coll_records c @ [r] \<and> coll_name c' = coll_name c"
  by (auto simp: collection_add_def split: if_splits)

lemma add_chunks_prefix:
  "add_chunks model_name encode codigo source i chunks c = (r, c') \<Longrightarrow>
     prefix (coll_records c) (coll_records c') \<and> coll_name c' = coll_name c"
proof (induction chunks arbitrary: i c)
  case Nil
  then show ?case by simp
next
  case (Cons chunk chunks)
  show ?case
  proof (cases "encode (chunk_text chunk)")
    case (Inl e)
    with Cons.prems show ?thesis by simp
  next
    case (Inr embedding)
    let ?rec = "\<lparr>rec_id = chunk_id codigo (tipo chunk) i model_name,
                   rec_embedding = embedding,
                   rec_document = chunk_text chunk,
                   rec_metadata = (chunk_metadata chunk)
                     (''source'' \<mapsto> source, ''tipo'' \<mapsto> tipo chunk, ''codigo'' \<mapsto> codigo)\<rparr>"
    show ?thesis
    proof (cases "collection_add c ?rec")
      case (Inl e)
      with Inr Cons.prems show ?thesis by simp
    next
      case c1: (Inr c1)
      with Inr Cons.prems
      have "add_chunks model_name encode codigo source (Suc i) chunks c1 = (r, c')" by simp
      from Cons.IH[OF this] collection_add_records[OF c1] show ?thesis
        by (auto simp: prefix_def)
    qed
  qed
qed

lemma grows_refl: "grows st st"
  by (simp add: grows_def list_all2_refl)

lemma grows_trans: "grows a b \<Longrightarrow> grows b c \<Longrightarrow> grows a c"
  unfolding grows_def
  apply (elim conjE, intro conjI)
    apply simp
   apply (erule (1) list_all2_trans[rotated])
   apply (auto elim: prefix_order.trans)
  done

lemma add_to_collections_grows:
  "add_to_collections models k codigo source chunks st = (r, st') \<Longrightarrow> grows st st'"
proof (induction models arbitrary: k st)
  case Nil
  then show ?case by (simp add: grows_refl)
next
  case (Cons model models)
  obtain model_name encode where model: "model = (model_name, encode)" by (cases model) auto
  show ?case
  proof (cases "k < length (collections st)")
    case False
    with Cons.prems model show ?thesis by (simp add: grows_refl)
  next
    case True
    define c where "c = collections st ! k"
    obtain r1 c' where ac: "add_chunks model_name encode codigo source 0 chunks c = (r1, c')"
      by (cases "add_chunks model_name encode codigo source 0 chunks c") auto
    from add_chunks_prefix[OF ac]
    have c': "prefix (coll_records c) (coll_records c')" "coll_name c' = coll_name c" by simp_all
    define st2 where "st2 = st\<lparr>printed := printed st @ [Inserting (coll_name c)],
                                 collections := (collections st)[k := c']\<rparr>"
    have g2: "grows st st2"
      using c' True unfolding grows_def st2_def c_def
      by (auto simp: list_all2_conv_all_nth nth_list_update)
    show ?thesis
    proof (cases r1)
      case None
      with Cons.prems model True ac
      have "add_to_collections models (Suc k) codigo source chunks
              (st2\<lparr>printed := printed st2 @ [Added (length chunks)]\<rparr>) = (r, st')"
        by (simp add: c_def st2_def Let_def)
      from Cons.IH[OF this] have "grows (st2\<lparr>printed := printed st2 @ [Added (length chunks)]\<rparr>) st'" .
      moreover have "grows st2 (st2\<lparr>printed := printed st2 @ [Added (length chunks)]\<rparr>)"
        by (simp add: grows_def list_all2_refl)
      ultimately show ?thesis using g2 grows_trans by blast
    next
      case (Some e)
      with Cons.prems model True ac have "st' = st2"
        by (simp add: c_def st2_def Let_def)
      with g2 show ?thesis by simp
    qed
  qed
qed

lemma process_file_grows:
  "process_file pdf_text models pdf_file st = (r, st') \<Longrightarrow> grows st st'"
proof -
  assume a: "process_file pdf_text models pdf_file st = (r, st')"
  show ?thesis
  proof (cases "pdf_text pdf_file")
    case None
    with a show ?thesis by (simp add: process_file_def grows_refl)
  next
    case (Some t)
    show ?thesis
    proof (cases "t = []")
      case True
      with a Some show ?thesis by (simp add: process_file_def grows_refl)
    next
      case False
      show ?thesis
      proof (cases "process_pdf_content t (basename pdf_file)")
        case (Inl e)
        with a Some False show ?thesis by (simp add: process_file_def grows_refl)
      next
        case (Inr res)
        obtain md chunks where res: "res = (md, chunks)" by (cases res) auto
        show ?thesis
        proof (cases "getitem md ''codigo''")
          case (Inl e)
          with a Some False Inr res show ?thesis by (simp add: process_file_def grows_refl)
        next
          case codigo: (Inr codigo)
          define st1 where "st1 = st\<lparr>chunks_por_disciplina := (chunks_por_disciplina st)(codigo \<mapsto> chunks),
                            printed := printed st @
                              [Processing (basename pdf_file), Disciplina (get_or md ''disciplina'' ''N/A''),
                               Codigo codigo]\<rparr>"
          from a Some False Inr res codigo
          have "add_to_collections models 0 codigo (basename pdf_file) chunks st1 = (r, st')"
            by (simp add: process_file_def st1_def Let_def)
          from add_to_collections_grows[OF this] have "grows st1 st'" .
          moreover have "grows st st1" by (simp add: grows_def st1_def list_all2_refl)
          ultimately show ?thesis using grows_trans by blast
        qed
      qed
    qed
  qed
qed

lemma process_files_grows: "grows st (process_files pdf_text models files st)"
proof (induction files arbitrary: st)
  case Nil
  show ?case by (simp add: grows_refl)
next
  case (Cons f files)
  obtain r st' where pf: "process_file pdf_text models f st = (r, st')"
    by (cases "process_file pdf_text models f st") auto
  from process_file_grows[OF pf] have g: "grows st st'" .
  show ?case
  proof (cases r)
    case None
    with pf Cons.IH[of st'] g show ?thesis by (auto intro: grows_trans)
  next
    case (Some e)
    have "grows st' (st'\<lparr>printed := printed st' @ [ErrorProcessing f e]\<rparr>)"
      by (simp add: grows_def list_all2_refl)
    with Some pf Cons.IH[of "st'\<lparr>printed := printed st' @ [ErrorProcessing f e]\<rparr>"] g
    show ?thesis by (auto intro: grows_trans)
  qed
qed

lemma process_files_append:
  "process_files pdf_text models (xs @ ys) st =
     process_files pdf_text models ys (process_files pdf_text models xs st)"
  by (induction xs arbitrary: st) (auto split: prod.splits option.splits)

lemma digits_of_isdigit: "list_all isdigit (digits_of n)"
proof (induction n rule: digits_of.induct)
  case (1 n)
  show ?case
  proof (cases "n < 10")
    case True
    then show ?thesis by (subst digits_of.simps) (simp add: isdigit_def)
  next
    case False
    have "n mod 10 < 10" by simp
    then have "isdigit (char_of (48 + n mod 10))"
      by (simp add: isdigit_def)
    with False 1 show ?thesis by (subst digits_of.simps) simp
  qed
qed

lemma digits_value_digits_of: "digits_value (digits_of n) = n"
proof (induction n rule: digits_of.induct)
  case (1 n)
  show ?case
  proof (cases "n < 10")
    case True
    then show ?thesis by (subst digits_of.simps) (simp add: digits_value_def)
  next
    case False
    have "n mod 10 < 10" by simp
    then have "(of_char (char_of (48 + n mod 10) :: char) :: nat) = 48 + n mod 10"
      by simp
    with False 1 show ?thesis
      by (subst digits_of.simps) (simp add: digits_value_def)
  qed
qed

lemma digits_of_inj: "digits_of i = digits_of j \<Longrightarrow> i = j"
  by (metis digits_value_digits_of)

lemma digits_then_underscore:
  assumes "list_all isdigit a" "list_all isdigit b" "a @ ''_'' @ m = b @ ''_'' @ n"
  shows "a = b \<and> m = n"
proof -
  have u: "\<not> isdigit CHR ''_''" by (simp add: isdigit_def)
  have "takeWhile isdigit (a @ ''_'' @ m) = a"
    using assms(1) u by (simp add: takeWhile_append2 list_all_iff)
  moreover have "takeWhile isdigit (b @ ''_'' @ n) = b"
    using assms(2) u by (simp add: takeWhile_append2 list_all_iff)
  ultimately have "a = b" using assms(3) by simp
  with assms(3) show ?thesis by simp
qed

lemma tipos_prefix_free:
  "list_all (\<lambda>t1. list_all (\<lambda>t2. prefix t1 t2 = (t1 = t2)) tipos) tipos"
  by code_simp

lemma tipo_then_underscore:
  assumes "t1 \<in> set tipos" "t2 \<in> set tipos" "t1 @ ''_'' @ x = t2 @ ''_'' @ y"
  shows "t1 = t2 \<and> x = y"
proof -
  from assms(1,2) tipos_prefix_free
  have pf: "prefix t1 t2 = (t1 = t2)" "prefix t2 t1 = (t2 = t1)"
    by (auto simp: list_all_iff)
  from assms(3) have "prefix t1 t2 \<or> prefix t2 t1"
    by (auto simp: append_eq_append_conv2 prefix_def)
  with pf have "t1 = t2" by auto
  with assms(3) show ?thesis by simp
qed

lemma chunk_id_inj:
  assumes "t1 \<in> set tipos" "t2 \<in> set tipos"
  shows "(chunk_id codigo t1 i m = chunk_id codigo t2 j n) = (t1 = t2 \<and> i = j \<and> m = n)"
proof
  assume "chunk_id codigo t1 i m = chunk_id codigo t2 j n"
  then have "t1 @ ''_'' @ (digits_of i @ ''_'' @ m) = t2 @ ''_'' @ (digits_of j @ ''_'' @ n)"
    by (simp add: chunk_id_def)
  from tipo_then_underscore[OF assms this]
  have t: "t1 = t2" and r: "digits_of i @ ''_'' @ m = digits_of j @ ''_'' @ n" by simp_all
  from digits_then_underscore[OF digits_of_isdigit digits_of_isdigit r]
  have "digits_of i = digits_of j" "m = n" by simp_all
  with t digits_of_inj show "t1 = t2 \<and> i = j \<and> m = n" by blast
next
  assume "t1 = t2 \<and> i = j \<and> m = n"
  then show "chunk_id codigo t1 i m = chunk_id codigo t2 j n" by simp
qed

lemma and_then_Inr: "and_then x f = Inr y \<Longrightarrow> \<exists>v. x = Inr v \<and> f v = Inr y"
  by (cases x) (simp_all add: and_then_def)

lemma and_thenE:
  assumes "and_then x f = Inr y"
  obtains v where "x = Inr v" "f v = Inr y"
  using assms by (cases x) (simp_all add: and_then_def)

lemma section_chunk_tipo:
  "section_chunk t s e tp md = Inr cs \<Longrightarrow> \<forall>c \<in> set cs. tipo c = tp"
  unfolding section_chunk_def
  by (auto dest!: and_then_Inr split: if_splits)

lemma topico_chunks_tipo:
  "topico_chunks ts md = Inr cs \<Longrightarrow> \<forall>c \<in> set cs. tipo c = ''conteudo_programatico''"
proof (induction ts arbitrary: cs)
  case Nil
  then show ?case by simp
next
  case (Cons t ts)
  from Cons.prems obtain cleaned ordinal others where
    "topico_chunks ts md = Inr others"
    "cs = \<lparr>chunk_text = cleaned, tipo = ''conteudo_programatico'',
             chunk_metadata = md(''secao'' \<mapsto> ''T'' @ [o_acute] @ ''pico '' @ ordinal)\<rparr> # others"
    by (auto dest!: and_then_Inr)
  with Cons.IH show ?case by auto
qed

lemma topicos_chunks_tipo:
  assumes "topicos_chunks t md = Inr cs"
  shows "\<forall>c \<in> set cs. tipo c = ''conteudo_programatico''"
proof -
  from assms obtain conteudo where
    r: "(if conteudo \<noteq> [] then
         and_then (re_findall1 topico_pattern conteudo DOTALL) (\<lambda>topicos.
           topico_chunks topicos md)
       else Inr []) = Inr cs"
    unfolding topicos_chunks_def by (rule and_thenE)
  show ?thesis
  proof (cases "conteudo = []")
    case True
    with r show ?thesis by simp
  next
    case False
    with r obtain ts where "topico_chunks ts md = Inr cs"
      by (auto elim: and_thenE)
    then show ?thesis by (rule topico_chunks_tipo)
  qed
qed

lemma section_chunks_tipo:
  assumes "section_chunks t md = Inr cs"
  shows "\<forall>c \<in> set cs. tipo c \<in> set (tl tipos)"
proof -
  from assms obtain objetivo where
    o: "section_chunk t ''Objetivo'' ''Ementa'' ''objetivo'' md = Inr objetivo"
    and r1: "and_then (section_chunk t ''Ementa'' conteudo_programatico ''ementa'' md) (\<lambda>ementa.
     and_then (topicos_chunks t md) (\<lambda>topicos.
     and_then (section_chunk t bibliografia_basica ''Bibliografia Complementar''
                 ''bibliografia_basica'' md) (\<lambda>basica.
     and_then (section_chunk t ''Bibliografia Complementar'' ''Resumo''
                 ''bibliografia_complementar'' md) (\<lambda>complementar.
     Inr (objetivo @ ementa @ topicos @ basica @ complementar))))) = Inr cs"
    unfolding section_chunks_def by (rule and_thenE)
  from r1 obtain ementa where
    e: "section_chunk t ''Ementa'' conteudo_programatico ''ementa'' md = Inr ementa"
    and r2: "and_then (topicos_chunks t md) (\<lambda>topicos.
     and_then (section_chunk t bibliografia_basica ''Bibliografia Complementar''
                 ''bibliografia_basica'' md) (\<lambda>basica.
     and_then (section_chunk t ''Bibliografia Complementar'' ''Resumo''
                 ''bibliografia_complementar'' md) (\<lambda>complementar.
     Inr (objetivo @ ementa @ topicos @ basica @ complementar)))) = Inr cs"
    by (rule and_thenE)
  from r2 obtain topicos where
    tp: "topicos_chunks t md = Inr topicos"
    and r3: "and_then (section_chunk t bibliografia_basica ''Bibliografia Complementar''
                 ''bibliografia_basica'' md) (\<lambda>basica.
     and_then (section_chunk t ''Bibliografia Complementar'' ''Resumo''
                 ''bibliografia_complementar'' md) (\<lambda>complementar.
     Inr (objetivo @ ementa @ topicos @ basica @ complementar))) = Inr cs"
    by (rule and_thenE)
  from r3 obtain basica where
    b: "section_chunk t bibliografia_basica ''Bibliografia Complementar''
                 ''bibliografia_basica'' md = Inr basica"
    and r4: "and_then (section_chunk t ''Bibliografia Complementar'' ''Resumo''
                 ''bibliografia_complementar'' md) (\<lambda>complementar.
     Inr (objetivo @ ementa @ topicos @ basica @ complementar)) = Inr cs"
    by (rule and_thenE)
  from r4 obtain complementar where
    c: "section_chunk t ''Bibliografia Complementar'' ''Resumo''
                 ''bibliografia_complementar'' md = Inr complementar"
    and cs: "cs = objetivo @ ementa @ topicos @ basica @ complementar"
    by (auto elim: and_thenE)
  from section_chunk_tipo[OF o] section_chunk_tipo[OF e] section_chunk_tipo[OF b]
    section_chunk_tipo[OF c] topicos_chunks_tipo[OF tp] cs
  show ?thesis by (auto simp: tipos_def)
qed

lemma process_pdf_content_shape:
  assumes "process_pdf_content t filename = Inr (md, chunks)"
  shows "\<exists>ident others.
           header_metadata t filename = Inr md
           \<and> clean_chunk_text (take 500 t) (Some ''identificacao'') = Inr ident
           \<and> section_chunks t md = Inr others
           \<and> chunks = \<lparr>chunk_text = ident, tipo = ''identificacao'', chunk_metadata = md\<rparr> # others"
proof -
  from assms obtain md' where
    h: "header_metadata t filename = Inr md'"
    and r1: "and_then (clean_chunk_text (take 500 t) (Some ''identificacao'')) (\<lambda>ident.
       and_then (section_chunks t md') (\<lambda>others.
       Inr (md', \<lparr>chunk_text = ident, tipo = ''identificacao'', chunk_metadata = md'\<rparr> # others)))
       = Inr (md, chunks)"
    unfolding process_pdf_content_def by (rule and_thenE)
  from r1 obtain ident where
    i: "clean_chunk_text (take 500 t) (Some ''identificacao'') = Inr ident"
    and r2: "and_then (section_chunks t md') (\<lambda>others.
       Inr (md', \<lparr>chunk_text = ident, tipo = ''identificacao'', chunk_metadata = md'\<rparr> # others))
       = Inr (md, chunks)"
    by (rule and_thenE)
  from r2 obtain others where
    s: "section_chunks t md' = Inr others"
    and r3: "md' = md"
      "chunks = \<lparr>chunk_text = ident, tipo = ''identificacao'', chunk_metadata = md'\<rparr> # others"
    by (auto elim: and_thenE)
  with h i show ?thesis by blast
qed

lemma consumed_refl: "consumed st st []"
  by (simp add: consumed_def)

lemma consumed_trans: "consumed a b u \<Longrightarrow> consumed b c v \<Longrightarrow> consumed a c (u @ v)"
  by (simp add: consumed_def)

lemma one_char_consumed:
  "st' \<in> set (one_char P st) \<Longrightarrow> \<exists>w \<in> char_lang P. consumed st st' w"
  by (cases st) (auto simp: one_char_def consumed_def char_lang_def split: list.splits if_splits)

lemma rep_star_consumed:
  assumes f: "\<And>a b. b \<in> set (f a) \<Longrightarrow> \<exists>w \<in> A. consumed a b w"
  shows "st' \<in> set (rep_star f g n st) \<Longrightarrow> \<exists>w \<in> star A. consumed st st' w"
proof (induction n arbitrary: st)
  case 0
  then have "st' = st" by simp
  then show ?case using consumed_refl star_nil by blast
next
  case (Suc n)
  from Suc.prems have "st' = st \<or>
      (\<exists>m. m \<in> set (f st) \<and> st' \<in> set (rep_star f g n m))"
    by (auto simp: Let_def split: if_splits)
  then show ?case
  proof
    assume "st' = st"
    then show ?thesis using consumed_refl star_nil by blast
  next
    assume "\<exists>m. m \<in> set (f st) \<and> st' \<in> set (rep_star f g n m)"
    then obtain m where m: "m \<in> set (f st)" and s: "st' \<in> set (rep_star f g n m)" by blast
    from f[OF m] obtain u where u: "u \<in> A" "consumed st m u" by blast
    from Suc.IH[OF s] obtain v where v: "v \<in> star A" "consumed m st' v" by blast
    from u v have "u @ v \<in> star A" "consumed st st' (u @ v)"
      by (auto intro: star_step consumed_trans)
    then show ?thesis by blast
  qed
qed

lemma matches_lang:
  "st' \<in> set (matches fl r st) \<Longrightarrow> \<exists>w \<in> lang fl r. consumed st st' w"
  "st' \<in> set (matches_seq fl rs st) \<Longrightarrow> \<exists>w \<in> lang_seq fl rs. consumed st st' w"
  "st' \<in> set (matches_alt fl rs st) \<Longrightarrow> \<exists>w \<in> lang_alt fl rs. consumed st st' w"
proof (induction fl r st and fl rs st and fl rs st arbitrary: st' and st' and st'
    rule: matches_matches_seq_matches_alt.induct)
  case (1 fl c st)
  then show ?case using one_char_consumed by simp
next
  case (2 fl st)
  then show ?case using one_char_consumed by simp
next
  case (3 fl st)
  then show ?case using one_char_consumed by simp
next
  case (4 fl st)
  then show ?case using one_char_consumed by simp
next
  case (5 fl neg items st)
  then show ?case using one_char_consumed by simp
next
  case (6 fl st)
  then show ?case using consumed_refl by (auto split: if_splits)
next
  case (7 fl st)
  then show ?case using consumed_refl by (auto split: if_splits)
next
  case (8 fl rs st)
  then show ?case by simp
next
  case (9 fl rs st)
  then show ?case by simp
next
  case (10 fl q g r st)
  show ?case
  proof (cases q)
    case Star
    with "10.prems" have "st' \<in> set (rep_star (\<lambda>s. matches fl r s) g (length (fst (snd st))) st)"
      by simp
    from rep_star_consumed[where f="\<lambda>s. matches fl r s" and A="lang fl r", OF _ this]
      "10.IH"(1)[OF Star]
    show ?thesis using Star by auto
  next
    case Plus
    from "10.prems" Plus obtain m where m: "m \<in> set (matches fl r st)"
      and s: "st' \<in> set (rep_star (\<lambda>s. matches fl r s) g (length (fst (snd m))) m)"
      by auto
    from "10.IH"(2)[OF Plus m] obtain u where u: "u \<in> lang fl r" "consumed st m u" by blast
    from rep_star_consumed[where f="\<lambda>s. matches fl r s" and A="lang fl r", OF _ s]
      "10.IH"(3)[OF Plus m]
    obtain v where v: "v \<in> star (lang fl r)" "consumed m st' v" by blast
    from u v have "consumed st st' (u @ v)" by (auto intro: consumed_trans)
    with u v Plus show ?thesis by auto
  next
    case Opt
    from "10.prems" Opt have "st' = st \<or> st' \<in> set (matches fl r st)"
      by (auto split: if_splits)
    then show ?thesis
    proof
      assume "st' = st"
      with Opt show ?thesis using consumed_refl by auto
    next
      assume a: "st' \<in> set (matches fl r st)"
      have "\<exists>w \<in> lang fl r. consumed st st' w"
        using "10.IH"(4,5)[OF Opt] a by (cases g) blast+
      with Opt show ?thesis by auto
    qed
  qed
next
  case (11 fl n r st)
  from "11.prems" obtain m where m: "m \<in> set (matches fl r st)"
    and eq: "fst st' = fst m" "fst (snd st') = fst (snd m)"
    by (auto split: prod.splits)
  from "11.IH"[OF m] obtain w where "w \<in> lang fl r" "consumed st m w" by blast
  with eq show ?case by (auto simp: consumed_def)
next
  case (12 fl r st)
  then show ?case by (auto simp: consumed_def split: list.splits)
next
  case (13 fl st)
  then show ?case using consumed_refl by simp
next
  case (14 fl r rs st)
  from "14.prems" obtain m where m: "m \<in> set (matches fl r st)" and s: "st' \<in> set (matches_seq fl rs m)"
    by auto
  from "14.IH"(1)[OF m] obtain u where u: "u \<in> lang fl r" "consumed st m u" by blast
  from "14.IH"(2)[OF m s] obtain v where v: "v \<in> lang_seq fl rs" "consumed m st' v" by blast
  from u v have "consumed st st' (u @ v)" by (auto intro: consumed_trans)
  with u v show ?case by auto
next
  case (15 fl st)
  then show ?case by simp
next
  case (16 fl r rs st)
  from "16.prems" have "st' \<in> set (matches fl r st) \<or> st' \<in> set (matches_alt fl rs st)"
    by simp
  with "16.IH" show ?case by (simp only: lang_alt.simps) blast
qed

lemma rep_star_caps:
  assumes f: "\<And>a b. b \<in> set (f a) \<Longrightarrow> snd (snd b) n = snd (snd a) n"
  shows "st' \<in> set (rep_star f g k st) \<Longrightarrow> snd (snd st') n = snd (snd st) n"
proof (induction k arbitrary: st)
  case 0
  then show ?case by simp
next
  case (Suc k)
  from Suc.prems have "st' = st \<or>
      (\<exists>m. m \<in> set (f st) \<and> st' \<in> set (rep_star f g k m))"
    by (auto simp: Let_def split: if_splits)
  then show ?case
  proof
    assume "st' = st"
    then show ?thesis by simp
  next
    assume "\<exists>m. m \<in> set (f st) \<and> st' \<in> set (rep_star f g k m)"
    then obtain m where m: "m \<in> set (f st)" and s: "st' \<in> set (rep_star f g k m)" by blast
    from f[OF m] Suc.IH[OF s] show ?thesis by simp
  qed
qed

lemma matches_caps:
  "st' \<in> set (matches fl r st) \<Longrightarrow> n \<notin> groups_of r \<Longrightarrow> snd (snd st') n = snd (snd st) n"
  "st' \<in> set (matches_seq fl rs st) \<Longrightarrow> n \<notin> (\<Union>r \<in> set rs. groups_of r) \<Longrightarrow>
     snd (snd st') n = snd (snd st) n"
  "st' \<in> set (matches_alt fl rs st) \<Longrightarrow> n \<notin> (\<Union>r \<in> set rs. groups_of r) \<Longrightarrow>
     snd (snd st') n = snd (snd st) n"
proof (induction fl r st and fl rs st and fl rs st arbitrary: st' and st' and st'
    rule: matches_matches_seq_matches_alt.induct)
  case (1 fl c st)
  then show ?case by (cases st) (auto simp: one_char_def split: list.splits if_splits)
next
  case (2 fl st)
  then show ?case by (cases st) (auto simp: one_char_def split: list.splits if_splits)
next
  case (3 fl st)
  then show ?case by (cases st) (auto simp: one_char_def split: list.splits if_splits)
next
  case (4 fl st)
  then show ?case by (cases st) (auto simp: one_char_def split: list.splits if_splits)
next
  case (5 fl neg items st)
  then show ?case by (cases st) (auto simp: one_char_def split: list.splits if_splits)
next
  case (6 fl st)
  then show ?case by (auto split: if_splits)
next
  case (7 fl st)
  then show ?case by (auto split: if_splits)
next
  case (8 fl rs st)
  then show ?case by simp
next
  case (9 fl rs st)
  then show ?case by simp
next
  case (10 fl q g r st)
  from "10.prems"(2) have n: "n \<notin> groups_of r" by simp
  show ?case
  proof (cases q)
    case Star
    with "10.prems" have "st' \<in> set (rep_star (\<lambda>s. matches fl r s) g (length (fst (snd st))) st)"
      by simp
    from rep_star_caps[where f="\<lambda>s. matches fl r s", OF _ this] "10.IH"(1)[OF Star _ n]
    show ?thesis by blast
  next
    case Plus
    from "10.prems" Plus obtain m where m: "m \<in> set (matches fl r st)"
      and s: "st' \<in> set (rep_star (\<lambda>s. matches fl r s) g (length (fst (snd m))) m)"
      by auto
    from "10.IH"(2)[OF Plus m n] have 1: "snd (snd m) n = snd (snd st) n" .
    from rep_star_caps[where f="\<lambda>s. matches fl r s", OF _ s] "10.IH"(3)[OF Plus m _ n]
    have "snd (snd st') n = snd (snd m) n" by blast
    with 1 show ?thesis by simp
  next
    case Opt
    from "10.prems" Opt have "st' = st \<or> st' \<in> set (matches fl r st)"
      by (auto split: if_splits)
    then show ?thesis
    proof
      assume "st' = st"
      then show ?thesis by simp
    next
      assume a: "st' \<in> set (matches fl r st)"
      show ?thesis using "10.IH"(4,5)[OF Opt _ a n] by (cases g) blast+
    qed
  qed
next
  case (11 fl k r st)
  from "11.prems"(2) have n: "n \<notin> groups_of r" "n \<noteq> k" by auto
  from "11.prems"(1) obtain m where m: "m \<in> set (matches fl r st)"
    and eq: "snd (snd st') = (snd (snd m))(k \<mapsto> (fst st, fst m))"
    by (auto split: prod.splits)
  from "11.IH"[OF m n(1)] eq n(2) show ?case by simp
next
  case (12 fl r st)
  from "12.prems"(2) have n: "n \<notin> groups_of r" by simp
  from "12.prems"(1) obtain m other where mo: "matches fl r st = m # other"
    and eq: "snd (snd st') = snd (snd m)"
    by (cases "matches fl r st") (auto split: prod.splits)
  from mo have m: "m \<in> set (matches fl r st)" by simp
  from "12.IH"[OF m n] eq show ?case by simp
next
  case (13 fl st)
  then show ?case by simp
next
  case (14 fl r rs st)
  from "14.prems"(2) have n: "n \<notin> groups_of r" "n \<notin> (\<Union>r \<in> set rs. groups_of r)" by auto
  from "14.prems"(1) obtain m where m: "m \<in> set (matches fl r st)"
    and s: "st' \<in> set (matches_seq fl rs m)"
    by auto
  from "14.IH"(1)[OF m n(1)] "14.IH"(2)[OF m s n(2)] show ?case by simp
next
  case (15 fl st)
  then show ?case by simp
next
  case (16 fl r rs st)
  from "16.prems"(2) have n: "n \<notin> groups_of r" "n \<notin> (\<Union>r \<in> set rs. groups_of r)" by auto
  from "16.prems"(1) have "st' \<in> set (matches fl r st) \<or> st' \<in> set (matches_alt fl rs st)"
    by simp
  with "16.IH"(1)[OF _ n(1)] "16.IH"(2)[OF _ n(2)] show ?case by blast
qed

lemma matches_GrpE:
  assumes "st2 \<in> set (matches fl (Grp n body) st1)"
  obtains i where "i \<in> set (matches fl body st1)" "fst st2 = fst i"
    "fst (snd st2) = fst (snd i)" "snd (snd st2) = (snd (snd i))(n \<mapsto> (fst st1, fst i))"
proof -
  from assms have "st2 \<in> (\<lambda>(p', rest', caps'). (p', rest', caps'(n \<mapsto> (fst st1, p'))))
                         ` set (matches fl body st1)"
    by simp
  then obtain i where i: "i \<in> set (matches fl body st1)"
    and st2: "st2 = (\<lambda>(p', rest', caps'). (p', rest', caps'(n \<mapsto> (fst st1, p')))) i"
    by (rule imageE)
  obtain p' rest' caps' where "i = (p', rest', caps')" by (cases i) auto
  with st2 have "fst st2 = fst i" "fst (snd st2) = fst (snd i)"
    "snd (snd st2) = (snd (snd i))(n \<mapsto> (fst st1, fst i))"
    by simp_all
  with i that show ?thesis by blast
qed

lemma matches_seq_append:
  "set (matches_seq fl (xs @ ys) st) = (\<Union>m \<in> set (matches_seq fl xs st). set (matches_seq fl ys m))"
  by (induction xs arbitrary: st) auto

lemma search_at_sound:
  "search_at fl r adv p rest = Some (b, e, caps) \<Longrightarrow>
     p \<le> b \<and> b \<le> p + length rest
     \<and> (\<exists>rest'. (e, rest', caps) \<in> set (matches fl r (b, drop (b - p) rest, Map.empty)))"
proof (induction rest arbitrary: p adv)
  case Nil
  from Nil obtain st other where
    f: "filter (acceptable adv p) (matches fl r (p, [], Map.empty)) = st # other"
    and st: "fst st = e" "snd (snd st) = caps" "b = p"
    by (auto split: list.splits)
  from f have "st \<in> set (filter (acceptable adv p) (matches fl r (p, [], Map.empty)))" by simp
  then have "st \<in> set (matches fl r (p, [], Map.empty))" by simp
  moreover have "st = (e, fst (snd st), caps)" using st by (cases st) auto
  ultimately have "(e, fst (snd st), caps) \<in> set (matches fl r (p, [], Map.empty))" by simp
  then have "\<exists>rest'. (e, rest', caps) \<in> set (matches fl r (p, [], Map.empty))" by blast
  with st show ?case by simp
next
  case (Cons c cs)
  show ?case
  proof (cases "filter (acceptable adv p) (matches fl r (p, c # cs, Map.empty))")
    case Nil
    with Cons.prems have "search_at fl r False (Suc p) cs = Some (b, e, caps)" by simp
    from Cons.IH[OF this] obtain rest' where
      b: "Suc p \<le> b" "b \<le> Suc p + length cs"
      and mem: "(e, rest', caps) \<in> set (matches fl r (b, drop (b - Suc p) cs, Map.empty))"
      by blast
    from b(1) have "b - p = Suc (b - Suc p)" by arith
    then have "drop (b - p) (c # cs) = drop (b - Suc p) cs" by simp
    with mem b show ?thesis by auto
  next
    case f: (Cons st other)
    with Cons.prems have st: "fst st = e" "snd (snd st) = caps" "b = p"
      by (auto split: prod.splits)
    from f have "st \<in> set (filter (acceptable adv p) (matches fl r (p, c # cs, Map.empty)))"
      by simp
    then have "st \<in> set (matches fl r (p, c # cs, Map.empty))" by simp
    moreover have "st = (e, fst (snd st), caps)" using st by (cases st) auto
    ultimately have "(e, fst (snd st), caps) \<in> set (matches fl r (p, c # cs, Map.empty))" by simp
    then have "\<exists>rest'. (e, rest', caps) \<in> set (matches fl r (p, c # cs, Map.empty))" by blast
    with st show ?thesis by simp
  qed
qed

lemma search_regex_sound:
  assumes "search_regex fl r s = Some m"
  shows "m_string m = s \<and> m_start m \<le> length s
         \<and> (\<exists>rest'. (m_end m, rest', m_groups m)
               \<in> set (matches fl r (m_start m, drop (m_start m) s, Map.empty)))"
proof -
  from assms obtain b e caps where
    sa: "search_at fl r False 0 s = Some (b, e, caps)"
    and m: "m = \<lparr>m_string = s, m_start = b, m_end = e, m_groups = caps\<rparr>"
    by (auto simp: search_regex_def split: option.splits)
  from search_at_sound[OF sa] m show ?thesis by auto
qed

lemma whole_in_lang:
  assumes "search_regex fl r s = Some m"
  shows "whole m \<in> lang fl r \<and> sublist (whole m) s"
proof -
  from search_regex_sound[OF assms] obtain rest' where
    ms: "m_string m = s"
    and mem: "(m_end m, rest', m_groups m) \<in> set (matches fl r (m_start m, drop (m_start m) s, Map.empty))"
    by blast
  from matches_lang(1)[OF mem] obtain w where
    w: "w \<in> lang fl r" "drop (m_start m) s = w @ rest'" "m_end m = m_start m + length w"
    by (auto simp: consumed_def)
  then have "whole m = w" using ms by (simp add: whole_def slice_def)
  moreover from w(2) have "s = take (m_start m) s @ w @ rest'"
    by (metis append_take_drop_id)
  then have "sublist w s" unfolding sublist_def by blast
  ultimately show ?thesis using w(1) by simp
qed

lemma group_in_lang:
  assumes "search_regex fl (Seq (pre @ Grp n body # post)) s = Some m"
    and "n \<notin> (\<Union>r \<in> set post. groups_of r)" and "0 < n"
  shows "\<exists>w \<in> lang fl body. group m n = Some w"
proof -
  from search_regex_sound[OF assms(1)] obtain rest' where
    ms: "m_string m = s"
    and mem: "(m_end m, rest', m_groups m)
        \<in> set (matches fl (Seq (pre @ Grp n body # post)) (m_start m, drop (m_start m) s, Map.empty))"
    by blast
  define st0 :: mstate where "st0 = (m_start m, drop (m_start m) s, Map.empty)"
  from mem have "(m_end m, rest', m_groups m) \<in> set (matches_seq fl (pre @ Grp n body # post) st0)"
    by (simp add: st0_def)
  then obtain st1 where st1: "st1 \<in> set (matches_seq fl pre st0)"
    and r1: "(m_end m, rest', m_groups m) \<in> set (matches_seq fl (Grp n body # post) st1)"
    unfolding matches_seq_append by blast
  from r1 have "\<exists>st2 \<in> set (matches fl (Grp n body) st1).
      (m_end m, rest', m_groups m) \<in> set (matches_seq fl post st2)"
    by (simp del: matches.simps)
  then obtain st2 where st2: "st2 \<in> set (matches fl (Grp n body) st1)"
    and r2: "(m_end m, rest', m_groups m) \<in> set (matches_seq fl post st2)"
    by blast
  from st2 obtain i where i: "i \<in> set (matches fl body st1)"
    and eq: "fst st2 = fst i" "snd (snd st2) n = Some (fst st1, fst i)"
    by (rule matches_GrpE) simp
  from matches_caps(2)[OF r2 assms(2)] eq
  have caps: "m_groups m n = Some (fst st1, fst i)" by simp
  from matches_lang(2)[OF st1] obtain u where
    u: "drop (m_start m) s = u @ fst (snd st1)" "fst st1 = m_start m + length u"
    by (auto simp: consumed_def st0_def)
  from matches_lang(1)[OF i] obtain w where
    w: "w \<in> lang fl body" "fst (snd st1) = w @ fst (snd i)" "fst i = fst st1 + length w"
    by (auto simp: consumed_def)
  have "drop (fst st1) s = fst (snd st1)"
    using u by (metis add.commute append_eq_conv_conj drop_drop)
  then have "slice s (fst st1) (fst i) = w"
    using w by (simp add: slice_def)
  with caps ms assms(3) w(1) show ?thesis by (auto simp: group_def)
qed

lemma split_group_Some:
  "split_group n rs = Some (pre, body, post) \<Longrightarrow> rs = pre @ Grp n body # post"
proof (induction rs arbitrary: pre)
  case Nil
  then show ?case by simp
next
  case (Cons r rs)
  show ?case
  proof (cases "\<exists>body'. r = Grp n body'")
    case True
    with Cons.prems show ?thesis by auto
  next
    case False
    with Cons.prems obtain a where a: "split_group n rs = Some (a, body, post)" "pre = r # a"
      by (cases r) (auto split: if_splits)
    from Cons.IH[OF a(1)] a(2) show ?thesis by simp
  qed
qed

lemma split_group_lits:
  "split_group n (map Lit w @ rs) = map_option (\<lambda>(a, b, c). (map Lit w @ a, b, c)) (split_group n rs)"
proof (induction w)
  case Nil
  show ?case by (simp add: option.map_ident case_prod_unfold)
next
  case (Cons c w)
  then show ?case by (simp add: option.map_comp comp_def case_prod_unfold)
qed

lemma group1_body_lang:
  assumes "re_compile fl pat = Inr r" "group1_body r = Some body"
    and "re_search pat s fl = Inr (Some m)"
  shows "\<exists>w \<in> lang fl body. group1 m = Inr w"
proof -
  from assms(2) obtain rs pre post where
    r: "r = Seq rs" and sp: "split_group 1 rs = Some (pre, body, post)"
    and no: "1 \<notin> (\<Union>x \<in> set post. groups_of x)"
    by (auto simp: group1_body_def split: regex.splits option.splits if_splits)
  from split_group_Some[OF sp] r have r': "r = Seq (pre @ Grp 1 body # post)" by simp
  from assms(1,3) r' have "search_regex fl (Seq (pre @ Grp 1 body # post)) s = Some m"
    by (simp add: re_search_def)
  from group_in_lang[OF this no] show ?thesis by (auto simp: group1_def)
qed

lemma good_pattern_search:
  assumes "good_pattern fl pat"
  shows "\<exists>mo. re_search pat s fl = Inr mo \<and> (\<forall>m. mo = Some m \<longrightarrow> (\<exists>w. group1 m = Inr w))"
proof -
  from assms obtain r body where r: "re_compile fl pat = Inr r" "group1_body r = Some body"
    by (auto simp: good_pattern_def split: sum.splits)
  then have s: "re_search pat s fl = Inr (search_regex fl r s)" by (simp add: re_search_def)
  show ?thesis
  proof (cases "search_regex fl r s")
    case None
    with s show ?thesis by simp
  next
    case (Some m)
    with s group1_body_lang[OF r, of s m] show ?thesis by auto
  qed
qed

lemma fixed_name_patterns_good:
  "good_pattern DOTALL (''Disciplina/Unidade[^>]*?([^>]*?)'' @ name_stops)"
  "good_pattern DOTALL (''Curricular'' @ bs_s @ ''*([^>]*?)'' @ name_stops)"
  "good_pattern DOTALL (''Disciplina:'' @ bs_s @ ''*([^>]*?)(?='' @ [backslash] @ ''.|$)'')"
  "good_pattern DOTALL (''(?:Disciplina|Unidade Curricular)[:'' @ bs_s @ '']+(.*?)'' @ header_stops)"
  by code_simp+

lemma carga_patterns_good:
  "list_all (\<lambda>p. case re_compile no_flags p of
                   Inr r \<Rightarrow> group1_body r = Some (Seq [Rep Plus True Digit])
                 | Inl e \<Rightarrow> False) (carga_total_pattern # carga_patterns)"
  by code_simp

lemma star_char_lang: "w \<in> star (char_lang P) \<Longrightarrow> list_all P w"
  by (induction rule: star.induct) (auto simp: char_lang_def)

lemma digits_group_lang:
  assumes "w \<in> lang fl (Seq [Rep Plus True Digit])"
  shows "w \<noteq> [] \<and> list_all isdigit w"
proof -
  from assms obtain u v where "w = u @ v" "u \<in> char_lang isdigit" "v \<in> star (char_lang isdigit)"
    by auto
  with star_char_lang[of v isdigit] show ?thesis by (auto simp: char_lang_def)
qed

lemma name_pattern1_good:
  assumes "list_all plain codigo"
  shows "good_pattern DOTALL (codigo @ bs_s @ ''+(.*?)'' @ name_stops)"
proof -
  have "tokens Normal (codigo @ bs_s @ ''+(.*?)'' @ name_stops) =
          cons_toks (map TChar codigo) (tokens Normal (bs_s @ ''+(.*?)'' @ name_stops))"
    by (rule tokens_plain[OF assms])
  then show ?thesis
    by (simp add: good_pattern_def name_stops_def re_compile_def parse_chars quantify_def wrap_def
        close_alts_def DOTALL_def list_ex_iff cons_toks_def cons_tok_def quant_of_def ispunct_def
        group1_body_def split_group_lits)
qed

lemma header_pattern_good:
  assumes "list_all plain codigo"
  shows "good_pattern DOTALL (codigo @ ''(.*?)'' @ header_stops)"
proof -
  have "tokens Normal (codigo @ ''(.*?)'' @ header_stops) =
          cons_toks (map TChar codigo) (tokens Normal (''(.*?)'' @ header_stops))"
    by (rule tokens_plain[OF assms])
  then show ?thesis
    by (simp add: good_pattern_def header_stops_def re_compile_def parse_chars quantify_def wrap_def
        close_alts_def DOTALL_def list_ex_iff cons_toks_def cons_tok_def quant_of_def ispunct_def
        group1_body_def split_group_lits)
qed

lemma fixed_sub_patterns:
  "\<exists>r. re_compile no_flags (bs_s @ ''+'') = Inr r"
  "\<exists>r. re_compile no_flags (''^'' @ bs_s @ ''*Curricular'' @ bs_s @ ''*'') = Inr r"
  "\<exists>r. re_compile no_flags (''^'' @ bs_d @ ''+'' @ bs_s @ ''+'') = Inr r"
  "\<exists>r. re_compile IGNORECASE (''(Bibliografia Complementar'' @ bs_s @ ''*)+$'') = Inr r"
  by (simp_all add: re_compile_def quantify_def wrap_def close_alts_def no_flags_def IGNORECASE_def
      cons_tok_def quant_of_def ispunct_def)

lemma re_sub_total:
  "\<exists>r. re_compile fl pat = Inr r \<Longrightarrow> \<exists>t. re_sub pat repl s fl = Inr t"
  by (auto simp: re_sub_def)

lemma disciplina_loop_total:
  assumes "list_all (good_pattern DOTALL) patterns"
  shows "\<exists>d. disciplina_loop patterns t d0 = Inr d"
  using assms
proof (induction patterns arbitrary: d0)
  case Nil
  then show ?case by simp
next
  case (Cons pattern patterns)
  then have g: "good_pattern DOTALL pattern" and gs: "list_all (good_pattern DOTALL) patterns"
    by simp_all
  from good_pattern_search[OF g, of t] obtain mo where
    mo: "re_search pattern t DOTALL = Inr mo" "\<forall>m. mo = Some m \<longrightarrow> (\<exists>w. group1 m = Inr w)"
    by blast
  show ?case
  proof (cases mo)
    case None
    with mo Cons.IH[OF gs, of d0] show ?thesis by (simp add: and_then_def)
  next
    case (Some m)
    with mo obtain w where w: "group1 m = Inr w" by blast
    from re_sub_total[OF fixed_sub_patterns(1)] obtain d1 where
      d1: "re_sub (bs_s @ ''+'') '' '' (strip w) no_flags = Inr d1" by blast
    from re_sub_total[OF fixed_sub_patterns(2)] obtain d2 where
      d2: "re_sub (''^'' @ bs_s @ ''*Curricular'' @ bs_s @ ''*'') [] d1 no_flags = Inr d2" by blast
    from Cons.IH[OF gs, of "strip d2"] Some mo w d1 d2 show ?thesis
      by (simp add: and_then_def)
  qed
qed

lemma carga_loop_total:
  assumes "list_all (\<lambda>p. case re_compile no_flags p of
                   Inr r \<Rightarrow> group1_body r = Some (Seq [Rep Plus True Digit])
                 | Inl e \<Rightarrow> False) patterns"
  shows "\<exists>mo. carga_loop patterns t = Inr mo
           \<and> (\<forall>m. mo = Some m \<longrightarrow> (\<exists>ds. group1 m = Inr ds \<and> ds \<noteq> [] \<and> list_all isdigit ds))"
  using assms
proof (induction patterns)
  case Nil
  then show ?case by simp
next
  case (Cons pattern patterns)
  then obtain r where r: "re_compile no_flags pattern = Inr r"
    "group1_body r = Some (Seq [Rep Plus True Digit])"
    by (auto split: sum.splits)
  then have s: "re_search pattern t no_flags = Inr (search_regex no_flags r t)"
    by (simp add: re_search_def)
  show ?case
  proof (cases "search_regex no_flags r t")
    case None
    with s Cons show ?thesis by (simp add: and_then_def)
  next
    case (Some m)
    with s group1_body_lang[OF r, of t m] obtain w where
      "w \<in> lang no_flags (Seq [Rep Plus True Digit])" "group1 m = Inr w" by auto
    with digits_group_lang[of w no_flags] Some s show ?thesis
      by (simp add: and_then_def)
  qed
qed

lemma cleaner_code_compile:
  "re_compile no_flags (''(CC|PP|CH|OP|MEIU)'' @ bs_d @ ''+[A-Z0-9]'')
     = Inr (code_regex cleaner_prefixes cleaner_last)"
  by code_simp

lemma lang_seq_lits: "\<not> ignorecase fl \<Longrightarrow> lang_seq fl (map Lit p) = {p}"
  by (induction p) (auto simp: char_lang_def)

lemma lang_alt_prefixes:
  "\<not> ignorecase fl \<Longrightarrow> lang_alt fl (map (\<lambda>p. Seq (map Lit p)) pfxs) = set pfxs"
  by (induction pfxs) (auto simp: lang_seq_lits)

lemma code_regex_lang:
  assumes "w \<in> lang fl (code_regex pfxs items)" "\<not> ignorecase fl"
  shows "code_shape pfxs items w"
proof -
  from assms(1) have "w \<in> lang_seq fl [Grp 1 (Alt (map (\<lambda>p. Seq (map Lit p)) pfxs)),
                                         Rep Plus True Digit, Cls False items]"
    by (simp add: code_regex_def)
  then obtain p r1 where 1: "w = p @ r1" "p \<in> lang fl (Grp 1 (Alt (map (\<lambda>p. Seq (map Lit p)) pfxs)))"
    "r1 \<in> lang_seq fl [Rep Plus True Digit, Cls False items]"
    unfolding lang_seq.simps by blast
  from 1(3) obtain ds r2 where 2: "r1 = ds @ r2" "ds \<in> lang fl (Rep Plus True Digit)"
    "r2 \<in> lang_seq fl [Cls False items]"
    unfolding lang_seq.simps by blast
  from 2(3) obtain c where 3: "r2 = [c]" "list_ex (citem_match c) items"
    by (auto simp: char_lang_def)
  from 1(2) assms(2) have p: "p \<in> set pfxs" by (simp add: lang_alt_prefixes)
  from 1(1) 2(1) 3(1) have w: "w = p @ ds @ [c]" by simp
  note ds = 2(2) and c = 3(2)
  from ds obtain u v where "ds = u @ v" "u \<in> char_lang isdigit" "v \<in> star (char_lang isdigit)"
    by auto
  with star_char_lang[of v isdigit] have d: "ds \<noteq> []" "list_all isdigit ds"
    by (auto simp: char_lang_def)
  from d(1) have len: "2 \<le> length (ds @ [c])" by (cases ds) auto
  have dr: "drop (length p) w = ds @ [c]" "prefix p w" using w by simp_all
  have "prefix p w \<and>
          (let r = drop (length p) w
           in 2 \<le> length r \<and> list_all isdigit (butlast r) \<and> list_ex (citem_match (last r)) items)"
    unfolding Let_def dr(1) using dr(2) len d(2) c by simp
  with p show ?thesis unfolding code_shape_def list_ex_iff by blast
qed

lemma isdigit_plain: "isdigit c \<Longrightarrow> plain c"
  by (auto simp: isdigit_def plain_def)

lemma cleaner_code_plain:
  assumes "code_shape cleaner_prefixes cleaner_last s"
  shows "list_all plain s"
proof -
  from assms obtain p where p: "p \<in> set cleaner_prefixes" "prefix p s"
    and r: "2 \<le> length (drop (length p) s)" "list_all isdigit (butlast (drop (length p) s))"
      "list_ex (citem_match (last (drop (length p) s))) cleaner_last"
    unfolding code_shape_def list_ex_iff Let_def by blast
  define r' where "r' = drop (length p) s"
  from p(2) have s: "s = p @ r'" by (auto simp: prefix_def r'_def)
  from r(1) have ne: "r' \<noteq> []" by (auto simp: r'_def)
  then have r': "r' = butlast r' @ [last r']" by simp
  from p(1) have "list_all plain p" by (auto simp: cleaner_prefixes_def plain_def)
  moreover from r(2) have "list_all plain (butlast r')"
    by (auto simp: r'_def list_all_iff isdigit_plain)
  moreover from r(3) have "plain (last r')"
    by (auto simp: r'_def cleaner_last_def plain_def)
  ultimately have "list_all plain (p @ butlast r' @ [last r'])" by simp
  with s r' show ?thesis by simp
qed

lemma label_pattern_compile:
  "\<exists>rs. re_compile DOTALL (''Disciplina:'' @ bs_s @ ''*([^>]*?)(?='' @ [backslash] @ ''.|$)'')
          = Inr (Seq (map Lit ''Disciplina:'' @ rs))"
proof -
  have "list_all plain ''Disciplina:''" by (simp add: plain_def)
  from tokens_plain[OF this, of "bs_s @ ''*([^>]*?)(?='' @ [backslash] @ ''.|$)''"]
  show ?thesis
    by (simp add: re_compile_def parse_chars quantify_def wrap_def
        close_alts_def DOTALL_def list_ex_iff cons_toks_def cons_tok_def quant_of_def ispunct_def)
qed

lemma label_absent:
  assumes "\<not> sublist ''Disciplina:'' t"
  shows "re_search (''Disciplina:'' @ bs_s @ ''*([^>]*?)(?='' @ [backslash] @ ''.|$)'') t DOTALL
           = Inr None"
proof -
  from label_pattern_compile obtain rs where
    c: "re_compile DOTALL (''Disciplina:'' @ bs_s @ ''*([^>]*?)(?='' @ [backslash] @ ''.|$)'')
          = Inr (Seq (map Lit ''Disciplina:'' @ rs))" by blast
  have nf: "\<not> ignorecase DOTALL" by (simp add: DOTALL_def)
  have "search_regex DOTALL (Seq (map Lit ''Disciplina:'' @ rs)) t = None"
  proof (rule search_regex_no_match)
    fix k
    have "\<not> prefix ''Disciplina:'' (drop k t)"
      using assms prefix_drop_sublist by blast
    then show "matches DOTALL (Seq (map Lit ''Disciplina:'' @ rs)) (k, drop k t, Map.empty) = []"
      using matches_lits[OF nf, of "''Disciplina:''" rs k "drop k t" Map.empty]
      by (simp del: matches_seq.simps)
  qed
  with c show ?thesis by (simp add: re_search_def del: append.simps map_append list.map)
qed

lemma digit_pattern_search:
  assumes "case re_compile no_flags p of
             Inr r \<Rightarrow> group1_body r = Some (Seq [Rep Plus True Digit]) | Inl e \<Rightarrow> False"
  shows "\<exists>mo. re_search p t no_flags = Inr mo
           \<and> (\<forall>m. mo = Some m \<longrightarrow> (\<exists>ds. group1 m = Inr ds \<and> ds \<noteq> [] \<and> list_all isdigit ds))"
proof -
  from carga_loop_total[of "[p]" t] assms obtain mo where
    mo: "carga_loop [p] t = Inr mo"
    "\<forall>m. mo = Some m \<longrightarrow> (\<exists>ds. group1 m = Inr ds \<and> ds \<noteq> [] \<and> list_all isdigit ds)"
    by auto
  from mo(1) obtain x where x: "re_search p t no_flags = Inr x"
    by (auto elim: and_thenE)
  with mo have "x = mo" by (cases x) (simp_all add: and_then_def)
  with x mo(2) show ?thesis by blast
qed

lemma ident_branch_form:
  "\<exists>codigo disciplina carga_horaria.
     clean_chunk_text t (Some ''identificacao'') = Inr (ident_text codigo disciplina carga_horaria)
     \<and> (codigo = ''N/A'' \<or> (code_shape cleaner_prefixes cleaner_last codigo \<and> sublist codigo t))
     \<and> (carga_horaria = ''N/A''
         \<or> (\<exists>ds. ds \<noteq> [] \<and> list_all isdigit ds \<and> carga_horaria = ds @ '' Horas''))
     \<and> (codigo = ''N/A'' \<and> \<not> sublist ''Disciplina:'' t \<longrightarrow> disciplina = ''N/A'')"
proof -
  define cm where "cm = search_regex no_flags (code_regex cleaner_prefixes cleaner_last) t"
  define codigo where "codigo = (case cm of Some m \<Rightarrow> whole m | None \<Rightarrow> ''N/A'')"
  have nf: "\<not> ignorecase no_flags" by (simp add: no_flags_def)
  have c: "re_search (''(CC|PP|CH|OP|MEIU)'' @ bs_d @ ''+[A-Z0-9]'') t no_flags = Inr cm"
    by (simp only: re_search_def cleaner_code_compile cm_def sum.case)
  have shape: "code_shape cleaner_prefixes cleaner_last codigo \<and> sublist codigo t" if "cm = Some m" for m
    using whole_in_lang[of no_flags "code_regex cleaner_prefixes cleaner_last" t m] that
      code_regex_lang[OF _ nf] by (simp add: cm_def codigo_def)
  \<comment> \<open>the name\<close>
  obtain d where d: "(case cm of None \<Rightarrow> Inr ''N/A''
                     | Some m \<Rightarrow> disciplina_loop (name_patterns codigo) t ''N/A'') = Inr d"
    and dnone: "cm = None \<Longrightarrow> d = ''N/A''"
  proof (cases cm)
    case None
    then show ?thesis using that by simp
  next
    case (Some m)
    from shape[OF Some] have "list_all plain codigo" using cleaner_code_plain by blast
    then have "list_all (good_pattern DOTALL) (name_patterns codigo)"
      using name_pattern1_good fixed_name_patterns_good(1,2) by (simp add: name_patterns_def)
    from disciplina_loop_total[OF this, of t "''N/A''"] Some show ?thesis using that by auto
  qed
  \<comment> \<open>the hours\<close>
  from carga_patterns_good have g0: "case re_compile no_flags carga_total_pattern of
             Inr r \<Rightarrow> group1_body r = Some (Seq [Rep Plus True Digit]) | Inl e \<Rightarrow> False"
    and gs: "list_all (\<lambda>p. case re_compile no_flags p of
                   Inr r \<Rightarrow> group1_body r = Some (Seq [Rep Plus True Digit])
                 | Inl e \<Rightarrow> False) carga_patterns"
    by simp_all
  from digit_pattern_search[OF g0, of t] obtain fm where
    fm: "re_search carga_total_pattern t no_flags = Inr fm"
    "\<forall>m. fm = Some m \<longrightarrow> (\<exists>ds. group1 m = Inr ds \<and> ds \<noteq> [] \<and> list_all isdigit ds)"
    by blast
  from carga_loop_total[OF gs, of t] obtain lm where
    lm: "carga_loop carga_patterns t = Inr lm"
    "\<forall>m. lm = Some m \<longrightarrow> (\<exists>ds. group1 m = Inr ds \<and> ds \<noteq> [] \<and> list_all isdigit ds)"
    by blast
  define ctm where "ctm = (case fm of Some m \<Rightarrow> Some m | None \<Rightarrow> lm)"
  have ctm: "(case fm of Some m \<Rightarrow> Inr (Some m) | None \<Rightarrow> carga_loop carga_patterns t) = Inr ctm"
    using lm(1) by (cases fm) (simp_all add: ctm_def)
  have ctmp: "\<forall>m. ctm = Some m \<longrightarrow> (\<exists>ds. group1 m = Inr ds \<and> ds \<noteq> [] \<and> list_all isdigit ds)"
    using fm(2) lm(2) by (cases fm) (simp_all add: ctm_def)
  obtain ch where ch: "(case ctm of
                    Some m \<Rightarrow> and_then (group1 m) (\<lambda>g. Inr (g @ '' Horas''))
                  | None \<Rightarrow> Inr ''N/A'') = Inr ch"
    and chp: "ch = ''N/A'' \<or> (\<exists>ds. ds \<noteq> [] \<and> list_all isdigit ds \<and> ch = ds @ '' Horas'')"
  proof (cases ctm)
    case None
    then show ?thesis using that by simp
  next
    case (Some m)
    with ctmp obtain ds where "group1 m = Inr ds" "ds \<noteq> []" "list_all isdigit ds" by blast
    with Some show ?thesis using that[of "ds @ '' Horas''"] by (simp add: and_then_def)
  qed
  \<comment> \<open>the label\<close>
  let ?label = "''Disciplina:'' @ bs_s @ ''*([^>]*?)(?='' @ [backslash] @ ''.|$)''"
  from good_pattern_search[OF fixed_name_patterns_good(3), of t] obtain lab where
    lab: "re_search ?label t DOTALL = Inr lab" "\<forall>m. lab = Some m \<longrightarrow> (\<exists>w. group1 m = Inr w)"
    by blast
  obtain d' where d': "(if d = ''N/A'' \<or> d = [] then
                    and_then (re_search ?label t DOTALL) (\<lambda>disciplina_match.
                      case disciplina_match of
                        Some m \<Rightarrow> and_then (group1 m) (\<lambda>g. Inr (strip g))
                      | None \<Rightarrow> Inr d)
                  else Inr d) = Inr d'"
    and d'p: "cm = None \<Longrightarrow> \<not> sublist ''Disciplina:'' t \<Longrightarrow> d' = ''N/A''"
  proof (cases "d = ''N/A'' \<or> d = []")
    case False
    then show ?thesis using that[of d] dnone by auto
  next
    case True
    show ?thesis
    proof (cases lab)
      case None
      with True lab(1) show ?thesis using that[of d] dnone by (simp add: and_then_def)
    next
      case (Some m)
      with lab(2) obtain w where w: "group1 m = Inr w" by blast
      have "\<not> sublist ''Disciplina:'' t \<Longrightarrow> False"
        using label_absent[of t] lab(1) Some by simp
      with True lab(1) Some w show ?thesis using that[of "strip w"]
        by (auto simp: and_then_def simp del: append.simps)
    qed
  qed
  have "clean_chunk_text t (Some ''identificacao'') = Inr (ident_text codigo d' ch)"
    unfolding clean_chunk_text_def
    by (simp only: c d ctm fm ch[unfolded and_then_def] d'[unfolded and_then_def]
        and_then_def sum.case Let_def codigo_def[symmetric] ident_text_def if_True refl)
  moreover have "codigo = ''N/A'' \<or> (code_shape cleaner_prefixes cleaner_last codigo \<and> sublist codigo t)"
    using shape by (cases cm) (simp_all add: codigo_def)
  moreover have "codigo = ''N/A'' \<and> \<not> sublist ''Disciplina:'' t \<longrightarrow> d' = ''N/A''"
  proof (cases cm)
    case None
    with d'p show ?thesis by simp
  next
    case (Some m)
    from shape[OF Some] have "codigo \<noteq> ''N/A''"
      by (auto simp: code_shape_def cleaner_prefixes_def list_ex_iff prefix_def)
    then show ?thesis by simp
  qed
  ultimately show ?thesis using chp by blast
qed

lemma extractor_code_compile:
  "re_compile no_flags (''(CC|PP)'' @ bs_d @ ''+[A-Z]'')
     = Inr (code_regex extractor_prefixes extractor_last)"
  by code_simp

lemma split_on_nonempty: "split_on c s \<noteq> []"
  by (induction s) (auto split: list.splits)

lemma extractor_code_plain:
  assumes "code_shape extractor_prefixes extractor_last s"
  shows "list_all plain s"
proof -
  have "code_shape cleaner_prefixes cleaner_last s"
    using assms unfolding code_shape_def list_ex_iff Let_def
    by (auto simp: extractor_prefixes_def cleaner_prefixes_def extractor_last_def cleaner_last_def)
  then show ?thesis by (rule cleaner_code_plain)
qed

lemma extract_metadata_total:
  "\<exists>md. extract_metadata_from_header t = Inr md
     \<and> (\<forall>c. md ''codigo'' = Some c \<longrightarrow> list_all plain c \<and> c \<noteq> [])"
proof -
  define cm where "cm = search_regex no_flags (code_regex extractor_prefixes extractor_last) t"
  have nf: "\<not> ignorecase no_flags" by (simp add: no_flags_def)
  have c: "re_search (''(CC|PP)'' @ bs_d @ ''+[A-Z]'') t no_flags = Inr cm"
    by (simp only: re_search_def extractor_code_compile cm_def sum.case)
  show ?thesis
  proof (cases cm)
    case None
    with c show ?thesis by (simp add: extract_metadata_from_header_def and_then_def)
  next
    case (Some m)
    from whole_in_lang[of no_flags "code_regex extractor_prefixes extractor_last" t m] Some
      code_regex_lang[OF _ nf]
    have sh: "code_shape extractor_prefixes extractor_last (whole m)" by (simp add: cm_def)
    then have "list_all plain (whole m)" by (rule extractor_code_plain)
    moreover from sh have "whole m \<noteq> []"
      by (auto simp: code_shape_def list_ex_iff extractor_prefixes_def prefix_def)
    moreover obtain l ls where "split_on newline (drop (m_end m) t) = l # ls"
      using split_on_nonempty[of newline "drop (m_end m) t"]
      by (cases "split_on newline (drop (m_end m) t)") auto
    ultimately show ?thesis using c Some
      by (simp add: extract_metadata_from_header_def and_then_def item0_def)
  qed
qed

lemma derive_disciplina_total:
  assumes "md ''codigo'' = Some c" "list_all plain c"
  shows "\<exists>md'. derive_disciplina md t = Inr md'"
proof -
  from good_pattern_search[OF header_pattern_good[OF assms(2)], of t] obtain mo where
    mo: "re_search (c @ ''(.*?)'' @ header_stops) t DOTALL = Inr mo"
    "\<forall>m. mo = Some m \<longrightarrow> (\<exists>w. group1 m = Inr w)" by blast
  from good_pattern_search[OF fixed_name_patterns_good(4), of t] obtain mo2 where
    mo2: "re_search (''(?:Disciplina|Unidade Curricular)[:'' @ bs_s @ '']+(.*?)'' @ header_stops) t DOTALL
            = Inr mo2"
    "\<forall>m. mo2 = Some m \<longrightarrow> (\<exists>w. group1 m = Inr w)" by blast
  show ?thesis
  proof (cases mo)
    case (Some m)
    with mo obtain w where "group1 m = Inr w" by blast
    with Some mo(1) assms(1) show ?thesis
      by (simp add: derive_disciplina_def getitem_def and_then_def)
  next
    case None
    show ?thesis
    proof (cases mo2)
      case (Some m)
      with mo2 obtain w where "group1 m = Inr w" by blast
      with Some mo(1) mo2(1) None assms(1) show ?thesis
        by (simp add: derive_disciplina_def getitem_def and_then_def)
    next
      case n2: None
      with mo(1) mo2(1) None assms(1) show ?thesis
        by (simp add: derive_disciplina_def getitem_def and_then_def)
    qed
  qed
qed

lemma header_metadata_total:
  assumes "list_all plain (fst (splitext filename))"
  shows "\<exists>md. header_metadata t filename = Inr md"
proof -
  from extract_metadata_total[of t] obtain md0 where
    md0: "extract_metadata_from_header t = Inr md0"
    "\<forall>c. md0 ''codigo'' = Some c \<longrightarrow> list_all plain c \<and> c \<noteq> []" by blast
  define md1 where "md1 = (if falsy (md0 ''codigo'')
      then md0(''codigo'' \<mapsto> fst (splitext filename)) else md0)"
  have "\<exists>c. md1 ''codigo'' = Some c \<and> list_all plain c"
  proof (cases "md0 ''codigo''")
    case None
    with assms show ?thesis by (simp add: md1_def falsy_def)
  next
    case (Some c)
    with md0(2) have "list_all plain c" "c \<noteq> []" by simp_all
    with Some show ?thesis by (simp add: md1_def falsy_def)
  qed
  then obtain c where c: "md1 ''codigo'' = Some c" "list_all plain c" by blast
  from derive_disciplina_total[of md1 c t] c obtain md' where
    "derive_disciplina md1 t = Inr md'" by blast
  with md0(1) show ?thesis
    by (auto simp: header_metadata_def and_then_def Let_def md1_def[symmetric])
qed

lemma group_at:
  assumes mem: "(e, rest', caps)
        \<in> set (matches fl (Seq (pre @ Grp n body # post)) (b, drop b s, Map.empty))"
    and no: "n \<notin> (\<Union>r \<in> set post. groups_of r)"
  shows "\<exists>gb ge. caps n = Some (gb, ge) \<and> slice s gb ge \<in> lang fl body"
proof -
  define st0 :: mstate where "st0 = (b, drop b s, Map.empty)"
  from mem have "(e, rest', caps) \<in> set (matches_seq fl (pre @ Grp n body # post) st0)"
    by (simp add: st0_def)
  then obtain st1 where st1: "st1 \<in> set (matches_seq fl pre st0)"
    and r1: "(e, rest', caps) \<in> set (matches_seq fl (Grp n body # post) st1)"
    unfolding matches_seq_append by blast
  from r1 have "\<exists>st2 \<in> set (matches fl (Grp n body) st1).
      (e, rest', caps) \<in> set (matches_seq fl post st2)"
    by (simp del: matches.simps)
  then obtain st2 where st2: "st2 \<in> set (matches fl (Grp n body) st1)"
    and r2: "(e, rest', caps) \<in> set (matches_seq fl post st2)"
    by blast
  from st2 obtain i where i: "i \<in> set (matches fl body st1)"
    and eq: "fst st2 = fst i" "snd (snd st2) n = Some (fst st1, fst i)"
    by (rule matches_GrpE) simp
  from matches_caps(2)[OF r2 no] eq
  have caps: "caps n = Some (fst st1, fst i)" by simp
  from matches_lang(2)[OF st1] obtain u where
    u: "drop b s = u @ fst (snd st1)" "fst st1 = b + length u"
    by (auto simp: consumed_def st0_def)
  from matches_lang(1)[OF i] obtain w where
    w: "w \<in> lang fl body" "fst (snd st1) = w @ fst (snd i)" "fst i = fst st1 + length w"
    by (auto simp: consumed_def)
  have "drop (fst st1) s = fst (snd st1)"
    using u by (metis add.commute append_eq_conv_conj drop_drop)
  then have "slice s (fst st1) (fst i) = w"
    using w by (simp add: slice_def)
  with caps w(1) show ?thesis by simp
qed

lemma findall_loop_items:
  "r = Seq (pre @ Grp 1 body # post) \<Longrightarrow> 1 \<notin> (\<Union>r \<in> set post. groups_of r) \<Longrightarrow>
   rest = drop p s \<Longrightarrow> p \<le> length s \<Longrightarrow>
   \<forall>x \<in> set (findall_loop fl r s adv p rest). x \<in> lang fl body"
proof (induction fl r s adv p rest rule: findall_loop.induct)
  case (1 fl r s adv p rest)
  show ?case
  proof (cases "search_at fl r adv p rest")
    case None
    then show ?thesis by (subst findall_loop.simps) simp
  next
    case (Some res)
    obtain b e caps where res: "res = (b, e, caps)" by (cases res) auto
    from search_at_bounds[OF Some[unfolded res]] "1.prems"(3,4)
    have be: "p \<le> b" "b \<le> e" "e \<le> length s" by auto
    from search_at_sound[OF Some[unfolded res]] be(1) "1.prems"(1,3) obtain rest' where
      "(e, rest', caps) \<in> set (matches fl (Seq (pre @ Grp 1 body # post)) (b, drop b s, Map.empty))"
      by auto
    from group_at[OF this "1.prems"(2)] obtain gb ge where
      g: "caps 1 = Some (gb, ge)" "slice s gb ge \<in> lang fl body" by blast
    have dr: "drop (e - p) rest = drop e s" using be "1.prems"(3) by simp
    from "1.IH"[OF Some res[symmetric] refl "1.prems"(1,2) dr be(3)]
    have "\<forall>x \<in> set (findall_loop fl r s (e = b) e (drop (e - p) rest)). x \<in> lang fl body" .
    with Some res g show ?thesis
      by (subst findall_loop.simps) simp
  qed
qed

lemma groups_of_lits: "(\<Union>r \<in> set (map Lit w). groups_of r) = {}"
  by (induction w) auto

lemma extract_section_total:
  assumes "list_all plain section_start" "list_all plain e"
  shows "\<exists>section. extract_section_from_pdf t section_start (Some e) = Inr section"
proof (cases "e = []")
  case True
  let ?post = "[Look (Seq [Alt [Seq (map Lit ''Bibliografia''),
                     Seq (map Lit (''Resumo da Altera'' @ [c_cedilla, a_tilde] @ ''o'')),
                     Seq [Eol]]])]"
  let ?r = "Seq (map Lit section_start @ Grp 1 (Seq [Rep Star False Any]) # ?post)"
  have c: "re_compile DOTALL (section_start @ section_fallback) = Inr ?r"
    using compile_section_fallback[OF assms(1)] by simp
  have no: "1 \<notin> (\<Union>r \<in> set ?post. groups_of r)" by simp
  show ?thesis
  proof (cases "search_regex DOTALL ?r t")
    case None
    with c True show ?thesis
      by (simp add: extract_section_from_pdf_def re_search_def and_then_def)
  next
    case (Some m)
    from group_in_lang[OF Some no] obtain w where "group m 1 = Some w" by auto
    with c True Some show ?thesis
      by (simp add: extract_section_from_pdf_def re_search_def and_then_def group1_def)
  qed
next
  case False
  let ?r = "Seq (map Lit section_start @ Grp 1 (Seq [Rep Star False Any]) # map Lit e)"
  note c = compile_section_end[OF assms]
  have no: "1 \<notin> (\<Union>r \<in> set (map Lit e). groups_of r)" by (simp only: groups_of_lits) simp
  show ?thesis
  proof (cases "search_regex DOTALL ?r t")
    case None
    with c False show ?thesis
      by (simp add: extract_section_from_pdf_def re_search_def and_then_def)
  next
    case (Some m)
    from group_in_lang[OF Some no] obtain w where "group m 1 = Some w" by auto
    with c False Some show ?thesis
      by (simp add: extract_section_from_pdf_def re_search_def and_then_def group1_def)
  qed
qed

lemma clean_default_total: "\<exists>cleaned. clean_chunk_text s None = Inr cleaned"
proof -
  define joined where "joined = join [newline]
     (filter (\<lambda>line. strip line \<noteq> [] \<and> lower (strip line) \<notin> set boilerplate) (split_on newline s))"
  from re_sub_total[OF fixed_sub_patterns(3)] obtain t1 where
    t1: "re_sub (''^'' @ bs_d @ ''+'' @ bs_s @ ''+'') [] joined no_flags = Inr t1" by blast
  from re_sub_total[OF fixed_sub_patterns(4)] obtain t2 where
    t2: "re_sub (''(Bibliografia Complementar'' @ bs_s @ ''*)+$'') [] t1 IGNORECASE = Inr t2" by blast
  from re_sub_total[OF fixed_sub_patterns(1)] obtain t3 where
    t3: "re_sub (bs_s @ ''+'') '' '' t2 no_flags = Inr t3" by blast
  from t1 t2 t3 show ?thesis
    by (simp add: clean_chunk_text_def Let_def joined_def[symmetric] and_then_def)
qed

lemma section_chunk_total:
  assumes "list_all plain section_start" "list_all plain e"
  shows "\<exists>cs. section_chunk t section_start e tp md = Inr cs"
proof -
  from extract_section_total[OF assms, of t] obtain sec where
    s: "extract_section_from_pdf t section_start (Some e) = Inr sec" by blast
  from clean_default_total[of sec] obtain cleaned where
    "clean_chunk_text sec None = Inr cleaned" by blast
  with s show ?thesis by (simp add: section_chunk_def and_then_def)
qed

lemma topico_pattern_compile:
  "\<exists>more post. re_compile DOTALL topico_pattern
        = Inr (Seq ([] @ Grp 1 (Seq (Rep Plus True Digit # more)) # post))
      \<and> 1 \<notin> (\<Union>r \<in> set post. groups_of r)"
  by (simp add: topico_pattern_def re_compile_def quantify_def wrap_def close_alts_def DOTALL_def
      cons_tok_def quant_of_def ispunct_def)

lemma isdigit_not_space: "isdigit c \<Longrightarrow> \<not> isspace c"
  by (auto simp: isdigit_def isspace_def Let_def)

lemma split_ws_nonempty: "\<not> isspace c \<Longrightarrow> split_ws (c # cs) \<noteq> []"
  by (cases cs) (auto split: list.splits)

lemma topico_chunks_total:
  assumes "\<forall>x \<in> set ts. \<exists>d r. x = d # r \<and> isdigit d"
  shows "\<exists>cs. topico_chunks ts md = Inr cs"
  using assms
proof (induction ts)
  case Nil
  then show ?case by simp
next
  case (Cons x ts)
  then obtain d r where x: "x = d # r" "isdigit d" by auto
  from split_ws_nonempty[OF isdigit_not_space[OF x(2)], of r] x(1)
  obtain w ws where w: "split_ws x = w # ws" by (cases "split_ws x") auto
  from clean_default_total[of "strip x"] obtain cleaned where
    c: "clean_chunk_text (strip x) None = Inr cleaned" by blast
  from Cons obtain cs where "topico_chunks ts md = Inr cs" by auto
  with w c show ?case by (simp add: and_then_def item0_def)
qed

lemma topicos_chunks_total: "\<exists>cs. topicos_chunks t md = Inr cs"
proof -
  have p1: "list_all plain conteudo_programatico" "list_all plain ''Bibliografia''"
    by (simp_all add: conteudo_programatico_def plain_def)
  from extract_section_total[OF p1, of t] obtain conteudo where
    s: "extract_section_from_pdf t conteudo_programatico (Some ''Bibliografia'') = Inr conteudo"
    by blast
  from topico_pattern_compile obtain more post where
    c: "re_compile DOTALL topico_pattern = Inr (Seq ([] @ Grp 1 (Seq (Rep Plus True Digit # more)) # post))"
    and no: "1 \<notin> (\<Union>r \<in> set post. groups_of r)" by blast
  let ?r = "Seq ([] @ Grp 1 (Seq (Rep Plus True Digit # more)) # post)"
  have items: "\<forall>x \<in> set (findall_loop DOTALL ?r conteudo False 0 conteudo).
                 x \<in> lang DOTALL (Seq (Rep Plus True Digit # more))"
    by (rule findall_loop_items[where pre="[]" and post=post and p=0]) (use no in simp_all)
  have "\<exists>d r. x = d # r \<and> isdigit d" if "x \<in> lang DOTALL (Seq (Rep Plus True Digit # more))" for x
  proof -
    from that obtain u v where "x = u @ v" "u \<in> lang DOTALL (Rep Plus True Digit)"
      by auto
    then show ?thesis by (auto simp: char_lang_def)
  qed
  with items have "\<forall>x \<in> set (findall_loop DOTALL ?r conteudo False 0 conteudo).
                     \<exists>d r. x = d # r \<and> isdigit d" by blast
  from topico_chunks_total[OF this, of md] obtain cs where
    "topico_chunks (findall_loop DOTALL ?r conteudo False 0 conteudo) md = Inr cs" by blast
  with s c show ?thesis
    by (simp add: topicos_chunks_def and_then_def re_findall1_def del: append.simps)
qed

lemma section_chunks_total: "\<exists>cs. section_chunks t md = Inr cs"
proof -
  have p: "list_all plain ''Objetivo''" "list_all plain ''Ementa''"
    "list_all plain conteudo_programatico" "list_all plain bibliografia_basica"
    "list_all plain ''Bibliografia Complementar''" "list_all plain ''Resumo''"
    by (simp_all add: conteudo_programatico_def bibliografia_basica_def plain_def)
  from section_chunk_total[OF p(1,2)] obtain objetivo where
    o: "section_chunk t ''Objetivo'' ''Ementa'' ''objetivo'' md = Inr objetivo" by blast
  from section_chunk_total[OF p(2,3)] obtain ementa where
    e: "section_chunk t ''Ementa'' conteudo_programatico ''ementa'' md = Inr ementa" by blast
  from topicos_chunks_total obtain topicos where
    tp: "topicos_chunks t md = Inr topicos" by blast
  from section_chunk_total[OF p(4,5)] obtain basica where
    b: "section_chunk t bibliografia_basica ''Bibliografia Complementar''
          ''bibliografia_basica'' md = Inr basica" by blast
  from section_chunk_total[OF p(5,6)] obtain complementar where
    c: "section_chunk t ''Bibliografia Complementar'' ''Resumo''
          ''bibliografia_complementar'' md = Inr complementar" by blast
  from o e tp b c show ?thesis by (simp add: section_chunks_def and_then_def)
qed

lemma process_pdf_content_total:
  assumes "list_all plain (fst (splitext filename))"
  shows "\<exists>md chunks. process_pdf_content t filename = Inr (md, chunks)"
proof -
  from header_metadata_total[OF assms, of t] obtain md where
    h: "header_metadata t filename = Inr md" by blast
  from ident_branch_form[of "take 500 t"] obtain ident where
    i: "clean_chunk_text (take 500 t) (Some ''identificacao'') = Inr ident" by blast
  from section_chunks_total[of t md] obtain others where
    s: "section_chunks t md = Inr others" by blast
  from h i s show ?thesis by (simp add: process_pdf_content_def and_then_def)
qed

lemma map_shift_upt:
  "map (\<lambda>k. f (Suc k)) [0..<n] = map f [1..<Suc n]"
  by (induction n) auto

lemma rep_star_chars:
  "length rest \<le> fuel \<Longrightarrow>
    rep_star (one_char P) True fuel (p, rest, caps) =
      map (\<lambda>k. (p + k, drop k rest, caps)) (rev [0..<Suc (length (takeWhile P rest))])"
proof (induction fuel arbitrary: p rest)
  case 0
  then show ?case by simp
next
  case (Suc fuel)
  show ?case
  proof (cases rest)
    case Nil
    have "one_char P (p, [], caps) = []" by (simp add: one_char_def)
    with Nil show ?thesis by simp
  next
    case (Cons x xs)
    show ?thesis
    proof (cases "P x")
      case False
      then have "one_char P (p, x # xs, caps) = []" by (simp add: one_char_def)
      with Cons False show ?thesis by simp
    next
      case True
      then have oc: "one_char P (p, x # xs, caps) = [(Suc p, xs, caps)]" by (simp add: one_char_def)
      from Suc.prems Cons have "length xs \<le> fuel" by simp
      from Suc.IH[OF this, of "Suc p"]
      have ih: "rep_star (one_char P) True fuel (Suc p, xs, caps) =
        map (\<lambda>k. (Suc p + k, drop k xs, caps)) (rev [0..<Suc (length (takeWhile P xs))])" .
      have "map (\<lambda>k. (Suc p + k, drop k xs, caps)) [0..<Suc (length (takeWhile P xs))]
            = map (\<lambda>k. (p + k, drop k (x # xs), caps)) [1..<Suc (Suc (length (takeWhile P xs)))]"
        using map_shift_upt[of "\<lambda>k. (p + k, drop k (x # xs), caps)" "Suc (length (takeWhile P xs))"]
        by simp
      then have sh: "map (\<lambda>k. (Suc p + k, drop k xs, caps)) (rev [0..<Suc (length (takeWhile P xs))])
            = map (\<lambda>k. (p + k, drop k (x # xs), caps)) (rev [1..<Suc (Suc (length (takeWhile P xs)))])"
        by (simp only: rev_map[symmetric])
      have up: "rev [0..<Suc (Suc (length (takeWhile P xs)))]
            = rev [1..<Suc (Suc (length (takeWhile P xs)))] @ [0]"
        by (simp add: upt_conv_Cons del: upt_Suc)
      have "rep_star (one_char P) True (Suc fuel) (p, x # xs, caps) =
              rep_star (one_char P) True fuel (Suc p, xs, caps) @ [(p, x # xs, caps)]"
        by (simp add: oc)
      also have "\<dots> = map (\<lambda>k. (p + k, drop k (x # xs), caps))
                          (rev [1..<Suc (Suc (length (takeWhile P xs)))]) @ [(p, x # xs, caps)]"
        by (simp only: ih sh)
      also have "\<dots> = map (\<lambda>k. (p + k, drop k (x # xs), caps))
                          (rev [0..<Suc (Suc (length (takeWhile P xs)))])"
        by (simp only: up map_append) simp
      finally show ?thesis using Cons True by simp
    qed
  qed
qed

lemma matches_plus_digits:
  "matches fl (Rep Plus True Digit) (p, rest, caps) =
     (case rest of
        [] \<Rightarrow> []
      | x # xs \<Rightarrow>
          if isdigit x
          then map (\<lambda>k. (Suc p + k, drop k xs, caps)) (rev [0..<Suc (length (takeWhile isdigit xs))])
          else [])"
proof (cases rest)
  case Nil
  then show ?thesis by (simp add: one_char_def)
next
  case (Cons x xs)
  show ?thesis
  proof (cases "isdigit x")
    case False
    with Cons show ?thesis by (simp add: one_char_def)
  next
    case True
    have md: "matches fl Digit = one_char isdigit" by (rule ext) simp
    have 2: "rep_star (one_char isdigit) True (length xs) (Suc p, xs, caps) =
      map (\<lambda>k. (Suc p + k, drop k xs, caps)) (rev [0..<Suc (length (takeWhile isdigit xs))])"
      by (rule rep_star_chars) simp
    have 1: "one_char isdigit (p, x # xs, caps) = [(Suc p, xs, caps)]"
      using True by (simp add: one_char_def)
    show ?thesis using Cons True 2 by (simp add: md 1 del: upt_Suc)
  qed
qed

lemma matches_Seq_Cons:
  "matches fl (Seq (r # rs)) st = concat (map (matches_seq fl rs) (matches fl r st))"
  by simp

lemma matches_prefix_group:
  "matches no_flags (Grp 1 (Alt (map (\<lambda>p. Seq (map Lit p)) extractor_prefixes))) (p, rest, caps) =
     (if prefix ''CC'' rest \<or> prefix ''PP'' rest
      then [(p + 2, drop 2 rest, caps(1 \<mapsto> (p, p + 2)))] else [])"
proof -
  have nf: "\<not> ignorecase no_flags" by (simp add: no_flags_def)
  have l: "matches_seq no_flags (map Lit w) (p, rest, caps) =
        (if prefix w rest then [(p + length w, drop (length w) rest, caps)] else [])" for w
    using matches_lits[OF nf, of w "[]" p rest caps] by simp
  have x: "\<not> (prefix ''CC'' rest \<and> prefix ''PP'' rest)" by (auto simp: prefix_def)
  have "matches no_flags (Grp 1 (Alt (map (\<lambda>p. Seq (map Lit p)) extractor_prefixes))) (p, rest, caps)
        = map (\<lambda>(p', rest', caps'). (p', rest', caps'(1 \<mapsto> (p, p'))))
            (matches_seq no_flags (map Lit ''CC'') (p, rest, caps)
             @ matches_seq no_flags (map Lit ''PP'') (p, rest, caps))"
    by (simp only: extractor_prefixes_def list.map matches.simps(8,9,11) matches_alt.simps
        append_Nil2 fst_conv)
  also have "\<dots> = (if prefix ''CC'' rest \<or> prefix ''PP'' rest
      then [(p + 2, drop 2 rest, caps(1 \<mapsto> (p, p + 2)))] else [])"
    using x by (simp only: l) (auto simp: numeral_2_eq_2)
  finally show ?thesis .
qed

lemma digits_then_other:
  assumes U: "\<And>c. isdigit c \<Longrightarrow> \<not> U c"
  shows "concat (map (one_char U)
            (map (\<lambda>k. (q + k, drop k xs, caps)) (rev [0..<Suc (length (takeWhile isdigit xs))])))
         = one_char U (q + length (takeWhile isdigit xs), dropWhile isdigit xs, caps)"
proof -
  define m where "m = length (takeWhile isdigit xs)"
  have early: "one_char U (q + k, drop k xs, caps) = []" if "k < m" for k
  proof -
    from that have k: "k < length xs" "takeWhile isdigit xs ! k = xs ! k"
      using length_takeWhile_le[of isdigit xs] by (auto simp: m_def takeWhile_nth)
    from that have "takeWhile isdigit xs ! k \<in> set (takeWhile isdigit xs)"
      by (simp add: m_def)
    then have "isdigit (xs ! k)" using k(2) by (auto dest: set_takeWhileD)
    then have "\<not> U (xs ! k)" by (rule U)
    moreover have "drop k xs = xs ! k # drop (Suc k) xs"
      using k(1) by (simp add: Cons_nth_drop_Suc)
    ultimately show ?thesis by (simp add: one_char_def)
  qed
  have "concat (map (one_char U) (map (\<lambda>k. (q + k, drop k xs, caps)) (rev [0..<n]))) = []"
    if "n \<le> m" for n
    using that
  proof (induction n)
    case 0
    show ?case by simp
  next
    case (Suc n)
    then have "n < m" "n \<le> m" by simp_all
    with early[of n] Suc.IH show ?case by simp
  qed
  from this[of m] have "concat (map (one_char U)
            (map (\<lambda>k. (q + k, drop k xs, caps)) (rev [0..<Suc m])))
         = one_char U (q + m, drop m xs, caps)"
    by simp
  moreover have "drop m xs = dropWhile isdigit xs"
    by (simp add: m_def dropWhile_eq_drop)
  ultimately show ?thesis by (simp add: m_def)
qed

lemma matches_extractor_code:
  "matches no_flags (code_regex extractor_prefixes extractor_last) (p, rest, caps) =
     (case code_at rest of
        None \<Rightarrow> []
      | Some c \<Rightarrow> [(p + length c, drop (length c) rest, caps(1 \<mapsto> (p, p + 2)))])"
proof (cases "prefix ''CC'' rest \<or> prefix ''PP'' rest")
  case False
  have "matches no_flags (code_regex extractor_prefixes extractor_last) (p, rest, caps) =
          concat (map (\<lambda>s. matches_seq no_flags [Rep Plus True Digit, Cls False extractor_last] s)
            (matches no_flags (Grp 1 (Alt (map (\<lambda>p. Seq (map Lit p)) extractor_prefixes))) (p, rest, caps)))"
    unfolding code_regex_def by (rule matches_Seq_Cons)
  with False show ?thesis by (simp only: matches_prefix_group code_at_def) simp
next
  case True
  define r where "r = drop 2 rest"
  define caps' where "caps' = caps(1 \<mapsto> (p, p + 2))"
  from True have lr: "2 \<le> length rest" "rest = take 2 rest @ r"
    by (auto simp: prefix_def r_def)
  let ?U = "\<lambda>x. list_ex (citem_match x) extractor_last"
  have e: "matches_seq no_flags [] = (\<lambda>s. [s])"
    by (rule ext) simp
  have cls: "matches_seq no_flags [Cls False extractor_last] = one_char ?U"
    by (rule ext) (simp add: e)
  have U: "\<not> ?U c" if "isdigit c" for c
    using that by (auto simp: extractor_last_def isdigit_def)
  have tail: "matches_seq no_flags [Rep Plus True Digit, Cls False extractor_last] (p + 2, r, caps') =
      (case dropWhile isdigit r of
         [] \<Rightarrow> []
       | c # cs \<Rightarrow>
           if takeWhile isdigit r \<noteq> [] \<and> list_ex (citem_match c) extractor_last
           then [(p + 2 + length (takeWhile isdigit r) + 1, cs, caps')]
           else [])"
  proof (cases r)
    case Nil
    then show ?thesis by (simp add: one_char_def)
  next
    case (Cons x xs)
    show ?thesis
    proof (cases "isdigit x")
      case False
      with Cons show ?thesis by (simp add: one_char_def)
    next
      case dx: True
      have "matches_seq no_flags [Rep Plus True Digit, Cls False extractor_last] (p + 2, r, caps') =
              concat (map (one_char ?U) (matches no_flags (Rep Plus True Digit) (p + 2, r, caps')))"
        by (simp only: matches_seq.simps(2) cls)
      also have "\<dots> = concat (map (one_char ?U)
          (map (\<lambda>k. (Suc (p + 2) + k, drop k xs, caps')) (rev [0..<Suc (length (takeWhile isdigit xs))])))"
        using Cons dx by (simp only: matches_plus_digits list.case if_True)
      also have "\<dots> = one_char ?U (Suc (p + 2) + length (takeWhile isdigit xs), dropWhile isdigit xs, caps')"
        by (rule digits_then_other) (rule U)
      finally have f: "matches_seq no_flags [Rep Plus True Digit, Cls False extractor_last] (p + 2, r, caps') =
          one_char ?U (Suc (p + 2) + length (takeWhile isdigit xs), dropWhile isdigit xs, caps')" .
      have tw: "takeWhile isdigit r = x # takeWhile isdigit xs"
          "dropWhile isdigit r = dropWhile isdigit xs"
        using Cons dx by simp_all
      have g: "one_char ?U (Suc (p + 2) + length tk, d, caps') =
          (case d of
             [] \<Rightarrow> []
           | c # cs \<Rightarrow>
               if x # tk \<noteq> [] \<and> list_ex (citem_match c) extractor_last
               then [(p + 2 + length (x # tk) + 1, cs, caps')]
               else [])" for d tk
        by (cases d) (simp_all add: one_char_def)
      show ?thesis unfolding f tw by (rule g)
    qed
  qed
  have "matches no_flags (code_regex extractor_prefixes extractor_last) (p, rest, caps) =
          concat (map (\<lambda>s. matches_seq no_flags [Rep Plus True Digit, Cls False extractor_last] s)
            (matches no_flags (Grp 1 (Alt (map (\<lambda>p. Seq (map Lit p)) extractor_prefixes))) (p, rest, caps)))"
    unfolding code_regex_def by (rule matches_Seq_Cons)
  also have "\<dots> = matches_seq no_flags [Rep Plus True Digit, Cls False extractor_last] (p + 2, r, caps')"
    using True by (simp only: matches_prefix_group r_def caps'_def) simp
  finally have m: "matches no_flags (code_regex extractor_prefixes extractor_last) (p, rest, caps) =
      (case dropWhile isdigit r of
         [] \<Rightarrow> []
       | c # cs \<Rightarrow>
           if takeWhile isdigit r \<noteq> [] \<and> list_ex (citem_match c) extractor_last
           then [(p + 2 + length (takeWhile isdigit r) + 1, cs, caps')]
           else [])"
    using tail by simp
  have ca: "code_at rest =
      (case dropWhile isdigit r of
         [] \<Rightarrow> None
       | c # cs \<Rightarrow>
           if takeWhile isdigit r \<noteq> [] \<and> list_ex (citem_match c) extractor_last
           then Some (take 2 rest @ takeWhile isdigit r @ [c])
           else None)"
    using True unfolding r_def by (simp add: code_at_def Let_def)
  show ?thesis
  proof (cases "dropWhile isdigit r")
    case Nil
    show ?thesis unfolding m ca Nil by simp
  next
    case (Cons c cs)
    define code where "code = take 2 rest @ takeWhile isdigit r @ [c]"
    have tr: "r = takeWhile isdigit r @ c # cs"
      using Cons takeWhile_dropWhile_id[of isdigit r] by simp
    have "rest = code @ cs"
      using lr(2) tr by (simp add: code_def)
    then have dl: "drop (length code) rest = cs"
      by (metis append_eq_conv_conj)
    have ln: "length code = 2 + length (takeWhile isdigit r) + 1"
      using lr(1) by (simp add: code_def)
    show ?thesis unfolding m ca Cons list.case code_def[symmetric]
      using dl[unfolded ln] by (simp add: caps'_def ln)
  qed
qed

lemma search_at_code:
  "search_at no_flags (code_regex extractor_prefixes extractor_last) False p rest =
     (case find_code_from p rest of
        None \<Rightarrow> None
      | Some (b, code) \<Rightarrow> Some (b, b + length code, [1 \<mapsto> (b, b + 2)]))"
proof (induction rest arbitrary: p)
  case Nil
  have "code_at [] = None" by (simp add: code_at_def)
  then show ?case
    by (simp add: matches_extractor_code acceptable_def del: matches.simps)
next
  case (Cons c cs)
  show ?case
    by (cases "code_at (c # cs)")
       (simp_all add: matches_extractor_code acceptable_def Cons.IH del: matches.simps)
qed

lemma code_at_shape:
  assumes "code_at s = Some code"
  shows "prefix code s \<and> code_shape extractor_prefixes extractor_last code"
proof -
  define r where "r = drop 2 s"
  from assms have pf: "prefix ''CC'' s \<or> prefix ''PP'' s"
    by (auto simp: code_at_def split: if_splits)
  then have s: "s = take 2 s @ r" "length (take 2 s) = 2" "take 2 s = ''CC'' \<or> take 2 s = ''PP''"
    by (auto simp: prefix_def r_def)
  from assms pf obtain c cs where
    d: "dropWhile isdigit r = c # cs" and ne: "takeWhile isdigit r \<noteq> []"
    and u: "list_ex (citem_match c) extractor_last"
    and code: "code = take 2 s @ takeWhile isdigit r @ [c]"
    unfolding code_at_def r_def Let_def
    by (auto split: list.splits if_splits)
  have tr: "r = takeWhile isdigit r @ c # cs"
    using d takeWhile_dropWhile_id[of isdigit r] by simp
  have "s = code @ cs" using s(1) tr by (simp add: code)
  then have p: "prefix code s" by (metis prefixI)
  have dg: "list_all isdigit (takeWhile isdigit r)"
    by (auto simp: list_all_iff dest: set_takeWhileD)
  have "code_shape extractor_prefixes extractor_last code"
    using s(2,3) ne u dg
    by (auto simp: code_shape_def extractor_prefixes_def code Let_def butlast_append
          Suc_le_eq numeral_2_eq_2)
  with p show ?thesis by simp
qed

lemma shape_code_at:
  assumes "code_shape extractor_prefixes extractor_last code"
  shows "code_at (code @ post) = Some code"
proof -
  define r where "r = drop 2 code"
  have sh: "(prefix ''CC'' code \<or> prefix ''PP'' code) \<and> 2 \<le> length r
      \<and> list_all isdigit (butlast r) \<and> list_ex (citem_match (last r)) extractor_last"
    using assms
    by (auto simp: code_shape_def extractor_prefixes_def r_def Let_def numeral_2_eq_2)
  define pf where "pf = take 2 code"
  from sh have pf: "pf = ''CC'' \<or> pf = ''PP''" and c: "code = pf @ r"
    by (auto simp: prefix_def pf_def r_def)
  from pf have l2: "length pf = 2" by auto
  from sh have r2: "2 \<le> length r" "list_all isdigit (butlast r)"
    "list_ex (citem_match (last r)) extractor_last"
    by simp_all
  then have rne: "r \<noteq> []" by auto
  define ds where "ds = butlast r"
  define z where "z = last r"
  have rz: "r = ds @ [z]" using rne by (simp add: ds_def z_def)
  have dne: "ds \<noteq> []" using r2(1) rz by auto
  have nz: "\<not> isdigit z" using r2(3) by (auto simp: z_def extractor_last_def isdigit_def)
  have dd: "\<forall>x\<in>set ds. isdigit x" using r2(2) by (simp add: ds_def list_all_iff)
  have tw: "takeWhile isdigit (ds @ z # post) = ds" "dropWhile isdigit (ds @ z # post) = z # post"
    using nz dd by (simp_all add: takeWhile_append2 dropWhile_append2)
  have pp: "prefix ''CC'' (code @ post) \<or> prefix ''PP'' (code @ post)"
    using pf c by (auto simp: prefix_def)
  have d2: "drop 2 (code @ post) = ds @ z # post" "take 2 (code @ post) = pf"
    using c l2 rz by simp_all
  show ?thesis
    unfolding code_at_def Let_def d2 tw using pp dne r2(3) c rz
    by (simp add: z_def[symmetric])
qed

lemma find_code_from_Some:
  "find_code_from p rest = Some (b, code) \<Longrightarrow>
     p \<le> b \<and> b - p < length rest \<and> code_at (drop (b - p) rest) = Some code
     \<and> (\<forall>k < b - p. code_at (drop k rest) = None)"
proof (induction rest arbitrary: p)
  case Nil
  then show ?case by simp
next
  case (Cons c cs)
  show ?case
  proof (cases "code_at (c # cs)")
    case (Some a)
    with Cons.prems show ?thesis by simp
  next
    case None
    with Cons.prems have "find_code_from (Suc p) cs = Some (b, code)" by simp
    from Cons.IH[OF this] have ih: "Suc p \<le> b" "b - Suc p < length cs"
      "code_at (drop (b - Suc p) cs) = Some code"
      "\<forall>k < b - Suc p. code_at (drop k cs) = None"
      by simp_all
    from ih(1) have e: "b - p = Suc (b - Suc p)" by simp
    have "code_at (drop k (c # cs)) = None" if "k < b - p" for k
    proof (cases k)
      case 0
      then show ?thesis using None by simp
    next
      case (Suc j)
      with that e have "j < b - Suc p" by simp
      with ih(4) Suc show ?thesis by simp
    qed
    with ih e show ?thesis by simp
  qed
qed

lemma find_code_from_None:
  "find_code_from p rest = None \<Longrightarrow> code_at (drop k rest) = None"
proof (induction rest arbitrary: p k)
  case Nil
  show ?case by (simp add: code_at_def)
next
  case (Cons c cs)
  from Cons.prems have n: "code_at (c # cs) = None" "find_code_from (Suc p) cs = None"
    by (auto split: option.splits)
  show ?case
  proof (cases k)
    case 0
    with n show ?thesis by simp
  next
    case (Suc j)
    with Cons.IH[OF n(2)] show ?thesis by simp
  qed
qed

lemma search_regex_code:
  "search_regex no_flags (code_regex extractor_prefixes extractor_last) t =
     (case find_code_from 0 t of
        None \<Rightarrow> None
      | Some (b, code) \<Rightarrow>
          Some \<lparr>m_string = t, m_start = b, m_end = b + length code,
                m_groups = [1 \<mapsto> (b, b + 2)]\<rparr>)"
  by (simp add: search_regex_def search_at_code split: option.splits)

lemma item0_split_on: "item0 (split_on sep s) = Inr (takeWhile (\<lambda>c. c \<noteq> sep) s)"
proof (induction s)
  case Nil
  show ?case by (simp add: item0_def)
next
  case (Cons c cs)
  then show ?case by (auto simp: item0_def split: list.splits)
qed

lemma extract_metadata_code:
  assumes "find_code_from 0 t = Some (b, code)"
  shows "\<exists>md. extract_metadata_from_header t = Inr md
           \<and> md ''codigo'' = Some code
           \<and> md ''disciplina'' =
               Some (strip (takeWhile (\<lambda>c. c \<noteq> newline) (drop (b + length code) t)))"
proof -
  from find_code_from_Some[OF assms] have ca: "code_at (drop b t) = Some code" by simp
  from code_at_shape[OF this] have "prefix code (drop b t)" by simp
  then have w: "slice t b (b + length code) = code"
    by (auto simp: slice_def prefix_def)
  have c: "re_search (''(CC|PP)'' @ bs_d @ ''+[A-Z]'') t no_flags =
      Inr (Some \<lparr>m_string = t, m_start = b, m_end = b + length code,
                  m_groups = [1 \<mapsto> (b, b + 2)]\<rparr>)"
    by (simp only: re_search_def extractor_code_compile sum.case search_regex_code assms
          option.case prod.case)
  show ?thesis
    unfolding extract_metadata_from_header_def c
    by (simp add: and_then_def item0_split_on whole_def w)
qed

lemma find_code_from_occurs:
  assumes "t = pre @ code @ post"
    and "code_shape extractor_prefixes extractor_last code"
  shows "\<exists>b code'. find_code_from 0 t = Some (b, code')"
proof -
  have "code_at (drop (length pre) t) = Some code"
    using assms shape_code_at[of code post] by simp
  have "find_code_from 0 t \<noteq> None"
  proof
    assume "find_code_from 0 t = None"
    from find_code_from_None[OF this, of "length pre"]
      \<open>code_at (drop (length pre) t) = Some code\<close> show False by simp
  qed
  then show ?thesis by (cases "find_code_from 0 t") auto
qed

lemma header_metadata_total_code:
  assumes "t = pre @ code @ post"
    and "code_shape extractor_prefixes extractor_last code"
  shows "\<exists>md. header_metadata t filename = Inr md"
proof -
  from find_code_from_occurs[OF assms] obtain b code' where
    f: "find_code_from 0 t = Some (b, code')" by blast
  from extract_metadata_code[OF f] obtain md0 where
    md0: "extract_metadata_from_header t = Inr md0" "md0 ''codigo'' = Some code'" by blast
  from extract_metadata_total[of t] md0 have pl: "list_all plain code'" "code' \<noteq> []"
    by auto
  from derive_disciplina_total[of md0 code' t] md0(2) pl(1) obtain md' where
    "derive_disciplina md0 t = Inr md'" by blast
  with md0 pl(2) show ?thesis
    by (auto simp: header_metadata_def and_then_def Let_def falsy_def)
qed

lemma process_pdf_content_total_code:
  assumes "t = pre @ code @ post"
    and "code_shape extractor_prefixes extractor_last code"
  shows "\<exists>md chunks. process_pdf_content t filename = Inr (md, chunks)"
proof -
  from header_metadata_total_code[OF assms, of filename] obtain md where
    h: "header_metadata t filename = Inr md" by blast
  from ident_branch_form[of "take 500 t"] obtain ident where
    i: "clean_chunk_text (take 500 t) (Some ''identificacao'') = Inr ident" by blast
  from section_chunks_total[of t md] obtain others where
    s: "section_chunks t md = Inr others" by blast
  from h i s show ?thesis by (simp add: process_pdf_content_def and_then_def)
qed

lemma process_pdf_content_ident:
  assumes "process_pdf_content t filename = Inr (md, chunks)"
  shows "chunks \<noteq> [] \<and> tipo (chunks ! 0) = ''identificacao''
         \<and> clean_chunk_text (take 500 t) (Some ''identificacao'') = Inr (chunk_text (chunks ! 0))
         \<and> length (filter (\<lambda>c. tipo c = ''identificacao'') chunks) = 1"
proof -
  from process_pdf_content_shape[OF assms] obtain ident others where
    i: "clean_chunk_text (take 500 t) (Some ''identificacao'') = Inr ident"
    and s: "section_chunks t md = Inr others"
    and c: "chunks = \<lparr>chunk_text = ident, tipo = ''identificacao'', chunk_metadata = md\<rparr> # others"
    by blast
  from section_chunks_tipo[OF s] have "\<forall>c \<in> set others. tipo c \<noteq> ''identificacao''"
    by (auto simp: tipos_def)
  then have "filter (\<lambda>c. tipo c = ''identificacao'') others = []"
    by (simp add: filter_empty_conv)
  with i c show ?thesis by simp
qed

lemma matches_plus_chars:
  assumes md: "matches fl r = one_char P"
  shows "matches fl (Rep Plus True r) (p, rest, caps) =
     (case rest of
        [] \<Rightarrow> []
      | x # xs \<Rightarrow>
          if P x
          then map (\<lambda>k. (Suc p + k, drop k xs, caps)) (rev [0..<Suc (length (takeWhile P xs))])
          else [])"
proof (cases rest)
  case Nil
  then show ?thesis by (simp add: md one_char_def)
next
  case (Cons x xs)
  show ?thesis
  proof (cases "P x")
    case False
    with Cons show ?thesis by (simp add: md one_char_def)
  next
    case True
    have 2: "rep_star (one_char P) True (length xs) (Suc p, xs, caps) =
      map (\<lambda>k. (Suc p + k, drop k xs, caps)) (rev [0..<Suc (length (takeWhile P xs))])"
      by (rule rep_star_chars) simp
    have 1: "one_char P (p, x # xs, caps) = [(Suc p, xs, caps)]"
      using True by (simp add: one_char_def)
    show ?thesis using Cons True 2 by (simp add: md 1 del: upt_Suc)
  qed
qed

lemma matches_plus_space:
  "matches fl (Rep Plus True Space) (p, rest, caps) =
     (case rest of
        [] \<Rightarrow> []
      | x # xs \<Rightarrow>
          if isspace x
          then map (\<lambda>k. (Suc p + k, drop k xs, caps)) (rev [0..<Suc (length (takeWhile isspace xs))])
          else [])"
  by (rule matches_plus_chars) (rule ext, simp)

lemma matches_seq_Nil: "matches_seq fl [] = (\<lambda>s. [s])"
  by (rule ext) simp

lemma matches_seq_single: "matches_seq fl [r] st = matches fl r st"
  by (simp add: matches_seq_Nil)

lemma search_at_space_None:
  "\<forall>c \<in> set rest. \<not> isspace c \<Longrightarrow> search_at fl (Seq [Rep Plus True Space]) adv p rest = None"
proof (induction rest arbitrary: p adv)
  case Nil
  show ?case
    by (simp only: search_at.simps matches.simps(8) matches_seq_single matches_plus_space) simp
next
  case (Cons c cs)
  then have c: "\<not> isspace c" and cs: "\<forall>c \<in> set cs. \<not> isspace c" by simp_all
  have m: "matches fl (Seq [Rep Plus True Space]) (p, c # cs, Map.empty) = []"
    using c by (simp only: matches.simps(8) matches_seq_single matches_plus_space list.case) simp
  show ?case
    by (simp only: search_at.simps m filter.simps list.case Cons.IH[OF cs])
qed

lemma search_at_space_Some:
  assumes "\<forall>c \<in> set ns. \<not> isspace c" "isspace x"
  shows "search_at fl (Seq [Rep Plus True Space]) adv p (ns @ x # xs) =
     Some (p + length ns, p + length ns + Suc (length (takeWhile isspace xs)), Map.empty)"
  using assms(1)
proof (induction ns arbitrary: p adv)
  case Nil
  have m: "matches fl (Seq [Rep Plus True Space]) (p, x # xs, Map.empty) =
       map (\<lambda>k. (Suc p + k, drop k xs, Map.empty)) (rev [0..<Suc (length (takeWhile isspace xs))])"
    using assms(2)
    by (simp only: matches.simps(8) matches_seq_single matches_plus_space list.case if_True)
  have "filter (acceptable adv p) (matches fl (Seq [Rep Plus True Space]) (p, x # xs, Map.empty))
        = (Suc p + length (takeWhile isspace xs), drop (length (takeWhile isspace xs)) xs, Map.empty)
          # filter (acceptable adv p)
              (map (\<lambda>k. (Suc p + k, drop k xs, Map.empty)) (rev [0..<length (takeWhile isspace xs)]))"
    unfolding m by (simp add: acceptable_def)
  then show ?case
    by (simp only: append_Nil search_at.simps list.case prod.case) simp
next
  case (Cons c cs)
  then have c: "\<not> isspace c" and cs: "\<forall>c \<in> set cs. \<not> isspace c" by simp_all
  have m: "matches fl (Seq [Rep Plus True Space]) (p, c # cs @ x # xs, Map.empty) = []"
    using c by (simp only: matches.simps(8) matches_seq_single matches_plus_space list.case) simp
  show ?case
    by (simp only: append_Cons search_at.simps m filter.simps list.case Cons.IH[OF cs]) simp
qed

lemma collapse_ws_run: "collapse_ws True s = collapse_ws False (dropWhile isspace s)"
  by (induction s) simp_all

lemma collapse_ws_nospace: "\<forall>c \<in> set s. \<not> isspace c \<Longrightarrow> collapse_ws b s = s"
  by (induction s arbitrary: b) simp_all

lemma collapse_ws_words:
  "\<forall>c \<in> set ns. \<not> isspace c \<Longrightarrow> isspace x \<Longrightarrow>
     collapse_ws False (ns @ x # xs) = ns @ CHR '' '' # collapse_ws False (dropWhile isspace xs)"
  by (induction ns) (simp_all add: collapse_ws_run)

lemma sub_loop_space:
  "sub_loop fl (Seq [Rep Plus True Space]) '' '' adv p rest = collapse_ws False rest"
proof (induction "length rest" arbitrary: rest adv p rule: less_induct)
  case less
  show ?case
  proof (cases "\<forall>c \<in> set rest. \<not> isspace c")
    case True
    then show ?thesis
      by (subst sub_loop.simps) (simp add: search_at_space_None collapse_ws_nospace)
  next
    case False
    then have "\<exists>x \<in> set rest. isspace x" by simp
    from split_list_first_prop[OF this] obtain ns x xs where
      r: "rest = ns @ x # xs" and x: "isspace x" and ns: "\<forall>c \<in> set ns. \<not> isspace c"
      by blast
    define m where "m = length (takeWhile isspace xs)"
    have dr: "drop (Suc (length ns + m)) rest = dropWhile isspace xs"
      by (simp add: r m_def dropWhile_eq_drop)
    have "length (dropWhile isspace xs) < length rest"
      using length_dropWhile_le[of isspace xs] by (simp add: r)
    note ih = less[OF this]
    have s: "search_at fl (Seq [Rep Plus True Space]) adv p rest
        = Some (p + length ns, p + length ns + Suc m, Map.empty)"
      unfolding r m_def by (rule search_at_space_Some[OF ns x])
    have tk: "take (length ns) rest = ns" by (simp add: r)
    have "sub_loop fl (Seq [Rep Plus True Space]) '' '' adv p rest
        = ns @ '' '' @ collapse_ws False (dropWhile isspace xs)"
      by (subst sub_loop.simps) (simp add: s tk dr ih)
    also have "\<dots> = collapse_ws False rest"
      unfolding r by (simp add: collapse_ws_words[OF ns x])
    finally show ?thesis .
  qed
qed

lemma isspace_space: "isspace CHR '' ''"
  by code_simp

lemma isspace_newline: "isspace newline"
  by code_simp

lemma collapse_ws_chars: "c \<in> set (collapse_ws b s) \<Longrightarrow> isspace c \<Longrightarrow> c = CHR '' ''"
  by (induction s arbitrary: b) (auto split: if_splits)

lemma collapse_ws_no_double:
  "\<not> sublist ''  '' (collapse_ws b s) \<and> (b \<longrightarrow> \<not> prefix '' '' (collapse_ws b s))"
proof (induction s arbitrary: b)
  case Nil
  show ?case by simp
next
  case (Cons c cs)
  show ?case
  proof (cases "isspace c")
    case True
    with Cons[of True] show ?thesis
      by (cases b) (auto simp: sublist_Cons_right)
  next
    case False
    then have "c \<noteq> CHR '' ''" using isspace_space by auto
    with False Cons[of False] show ?thesis
      by (auto simp: sublist_Cons_right)
  qed
qed

lemma single_spaced_collapse: "single_spaced (collapse_ws False s)"
  using collapse_ws_chars[of _ False s] collapse_ws_no_double[of False s]
  by (auto simp: single_spaced_def)

lemma single_spaced_Cons: "single_spaced (c # cs) \<Longrightarrow> single_spaced cs"
  by (auto simp: single_spaced_def sublist_Cons_right)

lemma collapse_ws_id:
  "single_spaced s \<Longrightarrow> (b \<longrightarrow> \<not> prefix '' '' s) \<Longrightarrow> collapse_ws b s = s"
proof (induction s arbitrary: b)
  case Nil
  show ?case by simp
next
  case (Cons c cs)
  note ss = single_spaced_Cons[OF Cons.prems(1)]
  show ?case
  proof (cases "isspace c")
    case True
    with Cons.prems(1) have c: "c = CHR '' ''" by (simp add: single_spaced_def)
    with Cons.prems(2) have b: "\<not> b" by auto
    have "\<not> prefix '' '' cs"
    proof
      assume "prefix '' '' cs"
      then have "prefix ''  '' (c # cs)" using c by simp
      then have "sublist ''  '' (c # cs)" by (rule prefix_imp_sublist)
      with Cons.prems(1) show False by (simp add: single_spaced_def)
    qed
    with Cons.IH[OF ss, of True] True b c show ?thesis by simp
  next
    case False
    with Cons.IH[OF ss, of False] show ?thesis by simp
  qed
qed

lemma strip_sublist: "sublist (strip s) s"
proof -
  define d where "d = dropWhile isspace s"
  have "s = takeWhile isspace s @ d" by (simp add: d_def)
  moreover have "d = rev (takeWhile isspace (rev d) @ dropWhile isspace (rev d))"
    by (simp only: takeWhile_dropWhile_id rev_rev_ident)
  then have "d = strip s @ rev (takeWhile isspace (rev d))"
    by (simp only: rev_append strip_def d_def)
  ultimately have "s = takeWhile isspace s @ strip s @ rev (takeWhile isspace (rev d))"
    by simp
  then show ?thesis unfolding sublist_def by blast
qed

lemma single_spaced_sublist: "sublist a s \<Longrightarrow> single_spaced s \<Longrightarrow> single_spaced a"
  unfolding single_spaced_def
  using set_mono_sublist sublist_order.order_trans by blast

lemma strip_ends:
  assumes "strip s \<noteq> []"
  shows "\<not> isspace (hd (strip s)) \<and> \<not> isspace (last (strip s))"
proof -
  define d where "d = dropWhile isspace s"
  define e where "e = dropWhile isspace (rev d)"
  have st: "strip s = rev e" by (simp add: strip_def d_def e_def)
  with assms have ne: "e \<noteq> []" by simp
  then have "\<not> isspace (hd e)" unfolding e_def by (rule hd_dropWhile)
  then have l: "\<not> isspace (last (strip s))" using ne by (simp add: st last_rev)
  have "d = rev (takeWhile isspace (rev d) @ e)"
    by (simp only: e_def takeWhile_dropWhile_id rev_rev_ident)
  then have d: "d = rev e @ rev (takeWhile isspace (rev d))"
    by (simp only: rev_append)
  then have "d \<noteq> []" using ne by auto
  then have "\<not> isspace (hd d)" unfolding d_def by (rule hd_dropWhile)
  moreover have "hd d = hd (rev e)" using ne by (subst d) simp
  ultimately have "\<not> isspace (hd (strip s))" by (simp add: st)
  with l show ?thesis by simp
qed

lemma strip_id:
  assumes "s \<noteq> []" "\<not> isspace (hd s)" "\<not> isspace (last s)"
  shows "strip s = s"
proof -
  from assms(1,2) have 1: "dropWhile isspace s = s" by (cases s) simp_all
  from assms(1,3) have 2: "dropWhile isspace (rev s) = rev s"
    by (cases "rev s") (simp_all add: last_rev[symmetric] hd_rev)
  show ?thesis by (simp add: strip_def 1 2)
qed

lemma normal_strip_collapse: "normal (strip (collapse_ws False s))"
  unfolding normal_def
  using single_spaced_sublist[OF strip_sublist single_spaced_collapse] strip_ends
  by blast

lemma space_pattern_compile:
  "re_compile no_flags (bs_s @ ''+'') = Inr (Seq [Rep Plus True Space])"
  by code_simp

lemma clean_default_normal:
  assumes "clean_chunk_text t None = Inr c"
  shows "normal c"
proof -
  define joined where "joined = join [newline]
     (filter (\<lambda>line. strip line \<noteq> [] \<and> lower (strip line) \<notin> set boilerplate) (split_on newline t))"
  from assms have "and_then (re_sub (''^'' @ bs_d @ ''+'' @ bs_s @ ''+'') [] joined no_flags) (\<lambda>t1.
        and_then (re_sub (''(Bibliografia Complementar'' @ bs_s @ ''*)+$'') [] t1 IGNORECASE) (\<lambda>t2.
        and_then (re_sub (bs_s @ ''+'') '' '' t2 no_flags) (\<lambda>t3.
        Inr (strip t3)))) = Inr c"
    by (simp add: clean_chunk_text_def Let_def joined_def)
  then obtain t1 where
    "and_then (re_sub (''(Bibliografia Complementar'' @ bs_s @ ''*)+$'') [] t1 IGNORECASE) (\<lambda>t2.
        and_then (re_sub (bs_s @ ''+'') '' '' t2 no_flags) (\<lambda>t3.
        Inr (strip t3))) = Inr c"
    by (rule and_thenE)
  then obtain t2 where
    "and_then (re_sub (bs_s @ ''+'') '' '' t2 no_flags) (\<lambda>t3. Inr (strip t3)) = Inr c"
    by (rule and_thenE)
  then obtain t3 where t3: "re_sub (bs_s @ ''+'') '' '' t2 no_flags = Inr t3" and c: "Inr (strip t3) = (Inr c :: error + string)"
    by (rule and_thenE)
  from t3[unfolded re_sub_def space_pattern_compile] have "t3 = collapse_ws False t2"
    by (simp add: sub_loop_space)
  with c show ?thesis using normal_strip_collapse by auto
qed

lemma ordinal_pattern_compile:
  "re_compile no_flags (''^'' @ bs_d @ ''+'' @ bs_s @ ''+'')
     = Inr (Seq [Bol, Rep Plus True Digit, Rep Plus True Space])"
  by code_simp

lemma heading_pattern_compile:
  "re_compile IGNORECASE (''(Bibliografia Complementar'' @ bs_s @ ''*)+$'') = Inr heading_pattern"
  by code_simp

lemma sub_loop_no_match:
  assumes "\<And>k. k \<le> length s \<Longrightarrow> matches fl r (k, drop k s, Map.empty) = []"
  shows "sub_loop fl r repl False 0 s = s"
proof -
  have "search_at fl r False 0 s = None"
    using assms by (simp add: search_at_None)
  then show ?thesis by (subst sub_loop.simps) simp
qed

lemma concat_map_empty: "(\<And>x. x \<in> set l \<Longrightarrow> f x = []) \<Longrightarrow> concat (map f l) = []"
  by (induction l) simp_all

lemma ordinal_no_match:
  assumes "\<not> ordinal_prefix s"
  shows "matches fl (Seq [Bol, Rep Plus True Digit, Rep Plus True Space]) (k, drop k s, Map.empty) = []"
proof (cases k)
  case (Suc j)
  then show ?thesis by simp
next
  case 0
  have sp: "matches fl (Rep Plus True Space) (q, r, caps) = []" if "r = [] \<or> \<not> isspace (hd r)" for q r caps
    using that by (cases r) (simp_all only: matches_plus_space list.case list.sel if_False, simp_all)
  have "matches_seq fl [Rep Plus True Digit, Rep Plus True Space] (0, s, Map.empty) = []"
  proof (cases s)
    case Nil
    then show ?thesis by (simp add: one_char_def)
  next
    case (Cons x xs)
    show ?thesis
    proof (cases "isdigit x")
      case False
      with Cons show ?thesis by (simp add: one_char_def)
    next
      case True
      define m where "m = length (takeWhile isdigit xs)"
      have st: "matches fl (Rep Plus True Space) (Suc 0 + j, drop j xs, Map.empty) = []" if "j \<le> m" for j
      proof (rule sp, cases "j < m")
        case True
        then have j: "j < length xs" "takeWhile isdigit xs ! j = xs ! j"
          using length_takeWhile_le[of isdigit xs] by (auto simp: m_def takeWhile_nth)
        from True have "takeWhile isdigit xs ! j \<in> set (takeWhile isdigit xs)"
          by (simp add: m_def)
        then have "isdigit (xs ! j)" using j(2) by (auto dest: set_takeWhileD)
        then have "\<not> isspace (xs ! j)" by (rule isdigit_not_space)
        moreover have "drop j xs = xs ! j # drop (Suc j) xs"
          using j(1) by (simp add: Cons_nth_drop_Suc)
        ultimately show "drop j xs = [] \<or> \<not> isspace (hd (drop j xs))" by simp
      next
        case False
        with that have "j = m" by simp
        then have d: "drop j xs = dropWhile isdigit xs" by (simp add: m_def dropWhile_eq_drop)
        from assms Cons True have "dropWhile isdigit xs = [] \<or> \<not> isspace (hd (dropWhile isdigit xs))"
          by (cases "dropWhile isdigit xs") (simp_all add: ordinal_prefix_def del: dropWhile_eq_Nil_conv)
        with d show "drop j xs = [] \<or> \<not> isspace (hd (drop j xs))" by simp
      qed
      have "matches_seq fl [Rep Plus True Digit, Rep Plus True Space] (0, s, Map.empty)
          = concat (map (matches fl (Rep Plus True Space))
              (map (\<lambda>j. (Suc 0 + j, drop j xs, Map.empty)) (rev [0..<Suc m])))"
        using Cons True
        by (simp only: matches_seq.simps(2) matches_seq_single[abs_def] matches_plus_digits
              list.case if_True m_def)
      also have "\<dots> = []"
      proof (rule concat_map_empty)
        fix x :: mstate
        assume "x \<in> set (map (\<lambda>j. (Suc 0 + j, drop j xs, Map.empty)) (rev [0..<Suc m]))"
        then obtain j where "j \<le> m" "x = (Suc 0 + j, drop j xs, Map.empty)"
          by (auto simp: less_Suc_eq_le)
        with st[of j] show "matches fl (Rep Plus True Space) x = []" by (simp only:)
      qed
      finally show ?thesis .
    qed
  qed
  with 0 show ?thesis by simp
qed

lemma star_last: "v \<in> star A \<Longrightarrow> v = [] \<or> (\<exists>y z. v = y @ z \<and> z \<in> A)"
proof (induction rule: star.induct)
  case star_nil
  show ?case by simp
next
  case (star_step u v)
  from star_step.IH show ?case
  proof
    assume "v = []"
    with star_step.hyps(1) have "u @ v = [] @ u \<and> u \<in> A" by simp
    then show ?thesis by blast
  next
    assume "\<exists>y z. v = y @ z \<and> z \<in> A"
    then obtain y z where "v = y @ z" "z \<in> A" by blast
    then have "u @ v = (u @ y) @ z \<and> z \<in> A" by simp
    then show ?thesis by blast
  qed
qed

lemma lang_seq_append:
  "lang_seq fl (xs @ ys) = {u @ v | u v. u \<in> lang_seq fl xs \<and> v \<in> lang_seq fl ys}"
proof (induction xs)
  case Nil
  show ?case by simp
next
  case (Cons r rs)
  show ?case
    apply (simp add: Cons)
    apply (rule set_eqI)
    apply (rule iffI)
     apply clarsimp
     apply (metis append.assoc)
    apply clarsimp
    apply (metis append.assoc)
    done
qed

lemma lang_seq_lits_ci:
  "ignorecase fl \<Longrightarrow> w \<in> lang_seq fl (map Lit p) \<Longrightarrow> map lower_char w = map lower_char p"
  by (induction p arbitrary: w) (auto simp: char_lang_def)

lemma heading_no_match:
  assumes n: "normal s"
    and ns: "\<not> suffix (lower ''Bibliografia Complementar'') (lower s)"
  shows "matches IGNORECASE heading_pattern (k, drop k s, Map.empty) = []"
proof (rule ccontr)
  let ?H = "''Bibliografia Complementar''"
  define L where "L = map Lit ?H"
  define G where "G = Grp 1 (Seq (L @ [Rep Star True Space]))"
  have hp: "heading_pattern = Seq ([Rep Plus True G] @ [Eol])"
    by (simp add: heading_pattern_def G_def L_def)
  define st :: mstate where "st = (k, drop k s, Map.empty)"
  have ic: "ignorecase IGNORECASE" by (simp add: IGNORECASE_def)
  assume "matches IGNORECASE heading_pattern (k, drop k s, Map.empty) \<noteq> []"
  then obtain st' where "st' \<in> set (matches IGNORECASE heading_pattern st)"
    unfolding st_def by (meson last_in_set)
  then have "st' \<in> set (matches_seq IGNORECASE ([Rep Plus True G] @ [Eol]) st)"
    by (simp only: hp matches.simps(8))
  then obtain m1 where m1: "m1 \<in> set (matches_seq IGNORECASE [Rep Plus True G] st)"
    and e: "st' \<in> set (matches_seq IGNORECASE [Eol] m1)"
    unfolding matches_seq_append by blast
  from m1 have m1': "m1 \<in> set (matches IGNORECASE (Rep Plus True G) st)"
    by (simp only: matches_seq_single)
  from e have "st' \<in> set (matches IGNORECASE Eol m1)"
    by (simp only: matches_seq_single)
  then have end_m1: "fst (snd m1) = [] \<or> fst (snd m1) = [newline]"
    by (simp split: if_splits)
  from matches_lang(1)[OF m1'] obtain w where
    w: "w \<in> lang IGNORECASE (Rep Plus True G)" and c: "consumed st m1 w" by blast
  from c have d: "drop k s = w @ fst (snd m1)" by (simp add: consumed_def st_def)
  have nl: "newline \<notin> set s"
    using n isspace_newline by (auto simp: normal_def single_spaced_def)
  have "fst (snd m1) = []"
  proof (rule ccontr)
    assume "fst (snd m1) \<noteq> []"
    with end_m1 have "fst (snd m1) = [newline]" by simp
    with d have "newline \<in> set (drop k s)" by simp
    with nl show False using in_set_dropD by fast
  qed
  with d have d': "drop k s = w" by simp
  from w obtain u v where uv: "w = u @ v" "u \<in> lang IGNORECASE G" "v \<in> star (lang IGNORECASE G)"
    by auto
  have "\<exists>y z. w = y @ z \<and> z \<in> lang IGNORECASE G"
  proof -
    from star_last[OF uv(3)] show ?thesis
    proof
      assume "v = []"
      with uv have "w = [] @ u \<and> u \<in> lang IGNORECASE G" by simp
      then show ?thesis by blast
    next
      assume "\<exists>y z. v = y @ z \<and> z \<in> lang IGNORECASE G"
      then obtain y z where "v = y @ z" "z \<in> lang IGNORECASE G" by blast
      with uv(1) have "w = (u @ y) @ z \<and> z \<in> lang IGNORECASE G" by simp
      then show ?thesis by blast
    qed
  qed
  then obtain y z where yz: "w = y @ z" and z: "z \<in> lang IGNORECASE G" by blast
  from z have "z \<in> lang_seq IGNORECASE (L @ [Rep Star True Space])"
    by (simp add: G_def)
  then obtain a b where ab: "z = a @ b" and a: "a \<in> lang_seq IGNORECASE L"
    and b: "b \<in> lang_seq IGNORECASE [Rep Star True Space]"
    unfolding lang_seq_append by blast
  from lang_seq_lits_ci[OF ic a[unfolded L_def]] have la: "map lower_char a = map lower_char ?H" .
  then have "length a = length ?H" by (metis length_map)
  then have ane: "a \<noteq> []" by auto
  from b have "b \<in> star (char_lang isspace)" by simp
  then have bs: "list_all isspace b" by (rule star_char_lang)
  have s: "s = (take k s @ y) @ a @ b"
    using d' yz ab by (metis append.assoc append_take_drop_id)
  have "b = []"
  proof (rule ccontr)
    assume bne: "b \<noteq> []"
    then have "last s = last b" by (subst s) simp
    moreover have "isspace (last b)" using bs bne by (simp add: list_all_iff)
    moreover have "s \<noteq> []" using s ane by auto
    ultimately show False using n by (simp add: normal_def)
  qed
  with s have "s = (take k s @ y) @ a" by simp
  then have "lower s = lower (take k s @ y) @ lower ?H"
    using la by (metis lower_def map_append)
  then have "suffix (lower ?H) (lower s)" by (rule suffixI)
  with ns show False by simp
qed

lemma split_on_no_sep: "sep \<notin> set s \<Longrightarrow> split_on sep s = [s]"
  by (induction s) auto

lemma clean_default_fixed:
  assumes n: "normal c"
    and b: "lower c \<notin> set boilerplate"
    and o: "\<not> ordinal_prefix c"
    and h: "\<not> suffix (lower ''Bibliografia Complementar'') (lower c)"
  shows "clean_chunk_text c None = Inr c"
proof (cases "c = []")
  case True
  have "clean_chunk_text [] None = Inr []" by code_simp
  with True show ?thesis by simp
next
  case False
  with n have st: "strip c = c" by (simp add: normal_def strip_id)
  have nl: "newline \<notin> set c"
    using n isspace_newline by (auto simp: normal_def single_spaced_def)
  have j: "join [newline]
     (filter (\<lambda>line. strip line \<noteq> [] \<and> lower (strip line) \<notin> set boilerplate) (split_on newline c)) = c"
    using False b by (simp add: split_on_no_sep[OF nl] st)
  have 1: "re_sub (''^'' @ bs_d @ ''+'' @ bs_s @ ''+'') [] c no_flags = Inr c"
    unfolding re_sub_def ordinal_pattern_compile
    by (simp only: sum.case sub_loop_no_match[OF ordinal_no_match[OF o]])
  have 2: "re_sub (''(Bibliografia Complementar'' @ bs_s @ ''*)+$'') [] c IGNORECASE = Inr c"
    unfolding re_sub_def heading_pattern_compile
    by (simp only: sum.case sub_loop_no_match[OF heading_no_match[OF n h]])
  have "\<not> prefix '' '' c"
    using n False isspace_space by (cases c) (auto simp: normal_def)
  with n have "collapse_ws False c = c" by (simp add: collapse_ws_id normal_def)
  then have 3: "re_sub (bs_s @ ''+'') '' '' c no_flags = Inr c"
    unfolding re_sub_def space_pattern_compile by (simp add: sub_loop_space)
  show ?thesis
    unfolding clean_chunk_text_def Let_def j
    by (simp only: 1 2 3 and_then_def sum.case st) simp
qed

lemma clean_default_tag:
  "tag \<noteq> Some ''identificacao'' \<Longrightarrow> clean_chunk_text t tag = clean_chunk_text t None"
  by (simp add: clean_chunk_text_def)

lemma default_cleaning_other_changes:
  "clean_chunk_text ''1 Ementa'' None = Inr ''Ementa''
   \<and> clean_chunk_text ''Ementa'' None = Inr []
   \<and> clean_chunk_text (''Bibliografia'' @ [newline] @ ''Complementar'') None
        = Inr ''Bibliografia Complementar''
   \<and> clean_chunk_text ''Bibliografia Complementar'' None = Inr []"
  by code_simp

lemma re_sub_unmatched:
  assumes "re_search pat s fl = Inr None"
  shows "re_sub pat repl s fl = Inr s"
proof (cases "re_compile fl pat")
  case (Inl e)
  with assms show ?thesis by (simp add: re_search_def)
next
  case (Inr r)
  with assms have "search_regex fl r s = None" by (simp add: re_search_def)
  then have "search_at fl r False 0 s = None"
    by (auto simp: search_regex_def split: option.splits prod.splits)
  then have "sub_loop fl r repl False 0 s = s" by (subst sub_loop.simps) simp
  with Inr show ?thesis by (simp add: re_sub_def)
qed

lemma clean_default_unmatched:
  assumes n: "normal c"
    and b: "lower c \<notin> set boilerplate"
    and o: "re_search (''^'' @ bs_d @ ''+'' @ bs_s @ ''+'') c no_flags = Inr None"
    and h: "re_search (''(Bibliografia Complementar'' @ bs_s @ ''*)+$'') c IGNORECASE = Inr None"
  shows "clean_chunk_text c None = Inr c"
proof (cases "c = []")
  case True
  have "clean_chunk_text [] None = Inr []" by code_simp
  with True show ?thesis by simp
next
  case False
  with n have st: "strip c = c" by (simp add: normal_def strip_id)
  have nl: "newline \<notin> set c"
    using n isspace_newline by (auto simp: normal_def single_spaced_def)
  have j: "join [newline]
     (filter (\<lambda>line. strip line \<noteq> [] \<and> lower (strip line) \<notin> set boilerplate) (split_on newline c)) = c"
    using False b by (simp add: split_on_no_sep[OF nl] st)
  note 1 = re_sub_unmatched[OF o, of "[]"]
  note 2 = re_sub_unmatched[OF h, of "[]"]
  have "\<not> prefix '' '' c"
    using n False isspace_space by (cases c) (auto simp: normal_def)
  with n have "collapse_ws False c = c" by (simp add: collapse_ws_id normal_def)
  then have 3: "re_sub (bs_s @ ''+'') '' '' c no_flags = Inr c"
    unfolding re_sub_def space_pattern_compile by (simp add: sub_loop_space)
  show ?thesis
    unfolding clean_chunk_text_def Let_def j
    by (simp only: 1 2 3 and_then_def sum.case st) simp
qed

lemma ordinal_unmatched:
  assumes "\<not> ordinal_prefix c"
  shows "re_search (''^'' @ bs_d @ ''+'' @ bs_s @ ''+'') c no_flags = Inr None"
proof -
  have "search_regex no_flags (Seq [Bol, Rep Plus True Digit, Rep Plus True Space]) c = None"
    by (rule search_regex_no_match) (rule ordinal_no_match[OF assms])
  then show ?thesis
    unfolding re_search_def ordinal_pattern_compile by simp
qed

lemma heading_unmatched:
  assumes "normal c" "\<not> suffix (lower ''Bibliografia Complementar'') (lower c)"
  shows "re_search (''(Bibliografia Complementar'' @ bs_s @ ''*)+$'') c IGNORECASE = Inr None"
proof -
  have "search_regex IGNORECASE heading_pattern c = None"
    by (rule search_regex_no_match) (rule heading_no_match[OF assms])
  then show ?thesis
    unfolding re_search_def heading_pattern_compile by simp
qed

lemma records_of_Nil: "records_of model codigo source i [] recs = (recs = [])"
  by (auto simp: records_of_def)

lemma records_of_Cons:
  assumes "snd model (chunk_text chunk) = Inr v"
    and "records_of model codigo source (Suc i) chunks recs"
  shows "records_of model codigo source i (chunk # chunks)
           (chunk_record (fst model) v codigo source i chunk # recs)"
  unfolding records_of_def
proof (intro conjI allI impI)
  show "length (chunk_record (fst model) v codigo source i chunk # recs) = length (chunk # chunks)"
    using assms(2) by (simp add: records_of_def)
next
  fix q assume q: "q < length (chunk # chunks)"
  show "\<exists>va. snd model (chunk_text ((chunk # chunks) ! q)) = Inr va \<and>
            (chunk_record (fst model) v codigo source i chunk # recs) ! q =
            chunk_record (fst model) va codigo source (i + q) ((chunk # chunks) ! q)"
  proof (cases q)
    case 0
    with assms(1) show ?thesis by simp
  next
    case (Suc r)
    with q have "r < length chunks" by simp
    with assms(2) obtain va where "snd model (chunk_text (chunks ! r)) = Inr va"
      "recs ! r = chunk_record (fst model) va codigo source (Suc i + r) (chunks ! r)"
      unfolding records_of_def by blast
    with Suc show ?thesis by simp
  qed
qed

lemma add_chunks_kept:
  assumes "add_chunks model_name encode codigo source i chunks c = (r, c')"
  shows "coll_name c' = coll_name c
     \<and> (\<exists>n recs. n \<le> length chunks
           \<and> coll_records c' = coll_records c @ recs
           \<and> records_of (model_name, encode) codigo source i (take n chunks) recs
           \<and> (case r of
                 None \<Rightarrow> n = length chunks
               | Some e \<Rightarrow> n < length chunks
                   \<and> fails_at (model_name, encode) codigo source (i + n) (chunks ! n) c' e))"
  using assms
proof (induction chunks arbitrary: i c)
  case Nil
  then show ?case by (auto simp: records_of_Nil)
next
  case (Cons chunk chunks)
  show ?case
  proof (cases "encode (chunk_text chunk)")
    case (Inl e)
    with Cons.prems have r: "r = Some e" "c' = c" by simp_all
    have "0 \<le> length (chunk # chunks) \<and> coll_records c' = coll_records c @ []
        \<and> records_of (model_name, encode) codigo source i (take 0 (chunk # chunks)) []
        \<and> 0 < length (chunk # chunks)
        \<and> fails_at (model_name, encode) codigo source (i + 0) ((chunk # chunks) ! 0) c' e"
      using Inl r by (simp add: records_of_Nil fails_at_def)
    then show ?thesis using r by (intro conjI exI[of _ 0] exI[of _ "[]"]) simp_all
  next
    case (Inr v)
    let ?rec = "chunk_record model_name v codigo source i chunk"
    show ?thesis
    proof (cases "collection_add c ?rec")
      case (Inl e)
      with Inr Cons.prems have r: "r = Some e" "c' = c"
        by (simp_all add: chunk_record_def)
      have "records_of (model_name, encode) codigo source i (take 0 (chunk # chunks)) []
        \<and> fails_at (model_name, encode) codigo source (i + 0) ((chunk # chunks) ! 0) c' e"
        using Inl Inr r by (simp add: records_of_Nil fails_at_def)
      then show ?thesis using r by (intro conjI exI[of _ 0] exI[of _ "[]"]) simp_all
    next
      case c1: (Inr c1)
      from collection_add_records[OF c1]
      have c1r: "coll_records c1 = coll_records c @ [?rec]" "coll_name c1 = coll_name c" by simp_all
      from Inr c1 Cons.prems
      have "add_chunks model_name encode codigo source (Suc i) chunks c1 = (r, c')"
        by (simp add: chunk_record_def)
      from Cons.IH[OF this] obtain n recs where
        nm: "coll_name c' = coll_name c1" and n: "n \<le> length chunks"
        and recs: "coll_records c' = coll_records c1 @ recs"
        and ro: "records_of (model_name, encode) codigo source (Suc i) (take n chunks) recs"
        and res: "case r of None \<Rightarrow> n = length chunks
               | Some e \<Rightarrow> n < length chunks
                   \<and> fails_at (model_name, encode) codigo source (Suc i + n) (chunks ! n) c' e"
        by blast
      have ro': "records_of (model_name, encode) codigo source i (take (Suc n) (chunk # chunks)) (?rec # recs)"
        using records_of_Cons[of "(model_name, encode)" chunk v codigo source i "take n chunks" recs]
          Inr ro by simp
      have res': "case r of None \<Rightarrow> Suc n = length (chunk # chunks)
               | Some e \<Rightarrow> Suc n < length (chunk # chunks)
                   \<and> fails_at (model_name, encode) codigo source (i + Suc n) ((chunk # chunks) ! Suc n) c' e"
        using res by (cases r) simp_all
      have "coll_records c' = coll_records c @ (?rec # recs)" using recs c1r by simp
      with nm c1r n ro' res' show ?thesis
        by (intro conjI exI[of _ "Suc n"] exI[of _ "?rec # recs"]) simp_all
    qed
  qed
qed

lemma add_to_collections_kept:
  assumes "add_to_collections models k0 codigo source chunks st = (Some e, st')"
  shows "\<exists>k n. k0 \<le> k \<and> k - k0 < length models \<and> k < length (collections st)
           \<and> n < length chunks
           \<and> fails_at (models ! (k - k0)) codigo source n (chunks ! n) (collections st' ! k) e
           \<and> kept_of models k0 codigo source chunks k n (collections st) (collections st')"
  using assms
proof (induction models arbitrary: k0 st)
  case Nil
  then show ?case by simp
next
  case (Cons model models)
  obtain model_name encode where model: "model = (model_name, encode)" by (cases model) auto
  show ?case
  proof (cases "k0 < length (collections st)")
    case False
    with Cons.prems model show ?thesis by simp
  next
    case True
    define c where "c = collections st ! k0"
    obtain r1 c' where ac: "add_chunks model_name encode codigo source 0 chunks c = (r1, c')"
      by (cases "add_chunks model_name encode codigo source 0 chunks c") auto
    from add_chunks_kept[OF ac] obtain n recs where
      nm: "coll_name c' = coll_name c" and n: "n \<le> length chunks"
      and recs: "coll_records c' = coll_records c @ recs"
      and ro: "records_of (model_name, encode) codigo source 0 (take n chunks) recs"
      and res: "case r1 of None \<Rightarrow> n = length chunks
               | Some e \<Rightarrow> n < length chunks
                   \<and> fails_at (model_name, encode) codigo source (0 + n) (chunks ! n) c' e"
      by blast
    show ?thesis
    proof (cases r1)
      case (Some e1)
      with Cons.prems model True ac have e: "e = e1"
        and st': "collections st' = (collections st)[k0 := c']"
        by (auto simp: c_def Let_def)
      from res Some e have nl: "n < length chunks"
        and f: "fails_at (model_name, encode) codigo source n (chunks ! n) c' e" by simp_all
      have k: "kept_of (model # models) k0 codigo source chunks k0 n (collections st) (collections st')"
        unfolding kept_of_def
      proof (intro conjI allI impI)
        show "length (collections st') = length (collections st)" by (simp add: st')
      next
        fix j assume j: "j < length (collections st)"
        show "coll_name (collections st' ! j) = coll_name (collections st ! j)"
          using j nm by (cases "j = k0") (simp_all add: st' c_def)
        show "\<exists>recs. coll_records (collections st' ! j) = coll_records (collections st ! j) @ recs
              \<and> (if j < k0 \<or> k0 < j then recs = []
                  else records_of ((model # models) ! (j - k0)) codigo source 0
                         (take (if j < k0 then length chunks else n) chunks) recs)"
        proof (cases "j = k0")
          case True
          with j recs ro show ?thesis
            by (intro exI[of _ recs]) (simp add: st' c_def model)
        next
          case False
          with j show ?thesis by (intro exI[of _ "[]"]) (auto simp: st')
        qed
      qed
      from True nl f k show ?thesis
        by (intro exI[of _ k0] exI[of _ n]) (simp add: model st')
    next
      case None
      define st2 where "st2 = st\<lparr>printed := printed st @ [Inserting (coll_name c)],
                                  collections := (collections st)[k0 := c'],
                                  printed := printed st @ [Inserting (coll_name c)] @ [Added (length chunks)]\<rparr>"
      from Cons.prems model True ac None
      have "add_to_collections models (Suc k0) codigo source chunks st2 = (Some e, st')"
        by (simp add: c_def Let_def st2_def)
      from Cons.IH[OF this] obtain k m where
        k: "Suc k0 \<le> k" "k - Suc k0 < length models" "k < length (collections st2)"
        and m: "m < length chunks"
        and f: "fails_at (models ! (k - Suc k0)) codigo source m (chunks ! m) (collections st' ! k) e"
        and kept: "kept_of models (Suc k0) codigo source chunks k m (collections st2) (collections st')"
        by blast
      have c2: "collections st2 = (collections st)[k0 := c']" by (simp add: st2_def)
      from res None have nfull: "n = length chunks" by simp
      have "k - k0 = Suc (k - Suc k0)" using k(1) by simp
      then have mk: "(model # models) ! (k - k0) = models ! (k - Suc k0)" by simp
      have k': "kept_of (model # models) k0 codigo source chunks k m (collections st) (collections st')"
        unfolding kept_of_def
      proof (intro conjI allI impI)
        show "length (collections st') = length (collections st)"
          using kept by (simp add: kept_of_def c2)
      next
        fix j assume j: "j < length (collections st)"
        then have j2: "j < length (collections st2)" by (simp add: c2)
        from kept j2 have nm2: "coll_name (collections st' ! j) = coll_name (collections st2 ! j)"
          by (simp add: kept_of_def)
        from kept j2 obtain recs2 where
          r2: "coll_records (collections st' ! j) = coll_records (collections st2 ! j) @ recs2"
          and r2p: "if j < Suc k0 \<or> k < j then recs2 = []
                  else records_of (models ! (j - Suc k0)) codigo source 0
                         (take (if j < k then length chunks else m) chunks) recs2"
          unfolding kept_of_def by blast
        show "coll_name (collections st' ! j) = coll_name (collections st ! j)"
          using nm2 j nm by (cases "j = k0") (simp_all add: c2 c_def)
        show "\<exists>recs. coll_records (collections st' ! j) = coll_records (collections st ! j) @ recs
              \<and> (if j < k0 \<or> k < j then recs = []
                  else records_of ((model # models) ! (j - k0)) codigo source 0
                         (take (if j < k then length chunks else m) chunks) recs)"
        proof (cases "j = k0")
          case True
          with r2p have "recs2 = []" by simp
          with r2 True j have "coll_records (collections st' ! j) = coll_records (collections st ! j) @ recs"
            using recs by (simp add: c2 c_def)
          moreover have "records_of ((model # models) ! (j - k0)) codigo source 0
                         (take (if j < k then length chunks else m) chunks) recs"
            using True k(1) ro nfull by (simp add: model)
          ultimately show ?thesis using True k(1) by (intro exI[of _ recs]) simp
        next
          case False
          with r2 j have a: "coll_records (collections st' ! j) = coll_records (collections st ! j) @ recs2"
            by (simp add: c2)
          show ?thesis
          proof (cases "j < k0")
            case True
            with r2p a show ?thesis by (intro exI[of _ recs2]) simp
          next
            case jf: False
            with False have jk: "Suc k0 \<le> j" by simp
            then have "j - k0 = Suc (j - Suc k0)" by simp
            then have mj: "(model # models) ! (j - k0) = models ! (j - Suc k0)" by simp
            from r2p jk a show ?thesis
              by (intro exI[of _ recs2]) (auto simp: mj)
          qed
        qed
      qed
      from k m f k' show ?thesis
        by (intro exI[of _ k] exI[of _ m]) (auto simp: mk c2)
    qed
  qed
qed

lemma kept_of_0:
  "kept_of models 0 codigo source chunks k n colls colls'
     = kept_until_failure models codigo source chunks k n colls colls'"
  unfolding kept_of_def kept_until_failure_def
  by (intro arg_cong2[where f="(\<and>)"] refl all_cong1 imp_cong ex_cong1) auto

lemma header_metadata_codigo:
  assumes "header_metadata t f = Inr md"
  shows "\<exists>c. md ''codigo'' = Some c"
proof -
  from assms obtain md0 where
    r: "(let md1 = (if falsy (md0 ''codigo'') then md0(''codigo'' \<mapsto> fst (splitext f)) else md0) in
          if falsy (md1 ''disciplina'') then derive_disciplina md1 t else Inr md1) = Inr md"
    unfolding header_metadata_def by (rule and_thenE)
  define md1 where "md1 = (if falsy (md0 ''codigo'') then md0(''codigo'' \<mapsto> fst (splitext f)) else md0)"
  have c1: "\<exists>c. md1 ''codigo'' = Some c"
    by (cases "md0 ''codigo''") (auto simp: md1_def falsy_def)
  from r have r': "(if falsy (md1 ''disciplina'') then derive_disciplina md1 t else Inr md1) = Inr md"
    by (auto simp: Let_def md1_def split: if_splits)
  show ?thesis
  proof (cases "falsy (md1 ''disciplina'')")
    case False
    with r' c1 show ?thesis by simp
  next
    case True
    with r' have d: "derive_disciplina md1 t = Inr md" by simp
    then have "md ''codigo'' = md1 ''codigo''"
      unfolding derive_disciplina_def
      by (auto dest!: and_then_Inr split: option.splits)
    with c1 show ?thesis by simp
  qed
qed

lemma process_file_failure:
  assumes "process_file pdf_text models f s0 = (Some e, st')"
  shows "\<exists>txt. pdf_text f = Some txt
           \<and> (case process_pdf_content txt (basename f) of
                 Inl e' \<Rightarrow> e' = e \<and> collections st' = collections s0
               | Inr (md, chunks) \<Rightarrow>
                   \<exists>codigo k n. md ''codigo'' = Some codigo
                     \<and> k < length models \<and> k < length (collections s0) \<and> n < length chunks
                     \<and> fails_at (models ! k) codigo (basename f) n (chunks ! n) (collections st' ! k) e
                     \<and> kept_until_failure models codigo (basename f) chunks k n
                          (collections s0) (collections st'))"
proof (cases "pdf_text f")
  case None
  with assms show ?thesis by (simp add: process_file_def)
next
  case (Some tx)
  show ?thesis
  proof (cases "tx = []")
    case True
    with assms Some show ?thesis by (simp add: process_file_def)
  next
    case False
    show ?thesis
    proof (cases "process_pdf_content tx (basename f)")
      case (Inl e')
      with assms Some False show ?thesis by (simp add: process_file_def)
    next
      case (Inr res)
      obtain md chunks where res: "res = (md, chunks)" by (cases res) auto
      from process_pdf_content_shape[OF Inr[unfolded res]] have "header_metadata tx (basename f) = Inr md"
        by blast
      from header_metadata_codigo[OF this] obtain codigo where c: "md ''codigo'' = Some codigo"
        by blast
      define s1 where "s1 = s0\<lparr>chunks_por_disciplina := (chunks_por_disciplina s0)(codigo \<mapsto> chunks),
                            printed := printed s0 @
                              [Processing (basename f), Disciplina (get_or md ''disciplina'' ''N/A''),
                               Codigo codigo]\<rparr>"
      from assms Some False Inr res c
      have a: "add_to_collections models 0 codigo (basename f) chunks s1 = (Some e, st')"
        by (simp add: process_file_def getitem_def s1_def Let_def)
      from add_to_collections_kept[OF a] obtain k n where
        "k < length models" "k < length (collections s1)" "n < length chunks"
        "fails_at (models ! k) codigo (basename f) n (chunks ! n) (collections st' ! k) e"
        "kept_of models 0 codigo (basename f) chunks k n (collections s1) (collections st')"
        by auto
      moreover have "collections s1 = collections s0" by (simp add: s1_def)
      ultimately show ?thesis using Some Inr res c
        by (auto simp: kept_of_0)
    qed
  qed
qed






lemma isdigit_cleaner_last: "isdigit x \<Longrightarrow> list_ex (citem_match x) cleaner_last"
  by (auto simp: cleaner_last_def isdigit_def Let_def)





lemma cleaner_code_at_shape:
  assumes "cleaner_code_at s = Some code"
  shows "prefix code s \<and> code_shape cleaner_prefixes cleaner_last code"
proof -
  from assms obtain w where f: "List.find (\<lambda>w. prefix w s) cleaner_prefixes = Some w"
    by (auto simp: cleaner_code_at_def split: option.splits)
  then have w: "w \<in> set cleaner_prefixes" "prefix w s"
    by (auto simp: find_Some_iff)
  define r where "r = drop (length w) s"
  define ds where "ds = takeWhile isdigit r"
  from w(2) have s: "s = w @ r" by (auto simp: prefix_def r_def)
  have rd: "r = ds @ dropWhile isdigit r" by (simp add: ds_def)
  have dg: "list_all isdigit ds" by (auto simp: ds_def list_all_iff dest: set_takeWhileD)
  have ca: "cleaner_code_at s =
      (case dropWhile isdigit r of
                [] \<Rightarrow> if 2 \<le> length ds then Some (w @ ds) else None
              | c # cs \<Rightarrow>
                  if ds \<noteq> [] \<and> list_ex (citem_match c) cleaner_last then Some (w @ ds @ [c])
                  else if 2 \<le> length ds then Some (w @ ds)
                  else None)"
    unfolding cleaner_code_at_def f option.case Let_def r_def ds_def ..
  have shape: "code_shape cleaner_prefixes cleaner_last (w @ tl)"
    if "2 \<le> length tl" "list_all isdigit (butlast tl)" "list_ex (citem_match (last tl)) cleaner_last" for tl
  proof -
    have "prefix w (w @ tl) \<and> 2 \<le> length (drop (length w) (w @ tl))
        \<and> list_all isdigit (butlast (drop (length w) (w @ tl)))
        \<and> list_ex (citem_match (last (drop (length w) (w @ tl)))) cleaner_last"
      using that by simp
    with w(1) show ?thesis
      unfolding code_shape_def Let_def by (subst list_ex_iff) blast
  qed
  consider (letter) c cs where "dropWhile isdigit r = c # cs" "ds \<noteq> []"
      "list_ex (citem_match c) cleaner_last" "code = w @ ds @ [c]"
    | (digits) "2 \<le> length ds" "code = w @ ds"
    using assms unfolding ca by (auto split: list.splits if_splits simp del: dropWhile_eq_Nil_conv)
  then show ?thesis
  proof cases
    case letter
    from letter(1) rd have "s = (w @ ds @ [c]) @ cs" using s by (metis append.assoc append_Cons append_Nil)
    then have "prefix (w @ ds @ [c]) s" by (metis prefixI)
    moreover have "code_shape cleaner_prefixes cleaner_last (w @ (ds @ [c]))"
      using letter(2,3) dg by (intro shape) (simp_all add: Suc_le_eq)
    ultimately show ?thesis using letter(4) by simp
  next
    case digits
    from rd s have "s = (w @ ds) @ dropWhile isdigit r" by (metis append.assoc)
    then have "prefix (w @ ds) s" by (metis prefixI)
    moreover from digits(1) have dne: "ds \<noteq> []" by auto
    have "list_all isdigit (butlast ds)" "isdigit (last ds)"
      using dg dne by (auto simp: list_all_iff dest: in_set_butlastD)
    then have "code_shape cleaner_prefixes cleaner_last (w @ ds)"
      using digits(1) by (intro shape) (simp_all add: isdigit_cleaner_last)
    ultimately show ?thesis using digits(2) by simp
  qed
qed


lemma find_cleaner_from_Some:
  "find_cleaner_from p rest = Some (b, code) \<Longrightarrow>
     p \<le> b \<and> b - p < length rest \<and> cleaner_code_at (drop (b - p) rest) = Some code
     \<and> (\<forall>k < b - p. cleaner_code_at (drop k rest) = None)"
proof (induction rest arbitrary: p)
  case Nil
  then show ?case by simp
next
  case (Cons c cs)
  show ?case
  proof (cases "cleaner_code_at (c # cs)")
    case (Some a)
    with Cons.prems show ?thesis by simp
  next
    case None
    with Cons.prems have "find_cleaner_from (Suc p) cs = Some (b, code)" by simp
    from Cons.IH[OF this] have ih: "Suc p \<le> b" "b - Suc p < length cs"
      "cleaner_code_at (drop (b - Suc p) cs) = Some code"
      "\<forall>k < b - Suc p. cleaner_code_at (drop k cs) = None"
      by simp_all
    from ih(1) have e: "b - p = Suc (b - Suc p)" by simp
    have "cleaner_code_at (drop k (c # cs)) = None" if "k < b - p" for k
    proof (cases k)
      case 0
      then show ?thesis using None by simp
    next
      case (Suc j)
      with that e have "j < b - Suc p" by simp
      with ih(4) Suc show ?thesis by simp
    qed
    with ih e show ?thesis by simp
  qed
qed

















lemma spec_code_shape:
  "spec_code t = ''N/A'' \<or> code_shape cleaner_prefixes cleaner_last (spec_code t)"
proof (cases "find_cleaner_from 0 t")
  case None
  then show ?thesis by (simp add: spec_code_def)
next
  case (Some bc)
  obtain b code where bc: "bc = (b, code)" by (cases bc) auto
  from find_cleaner_from_Some[OF Some[unfolded bc]] have "cleaner_code_at (drop b t) = Some code"
    by simp
  from cleaner_code_at_shape[OF this] Some bc show ?thesis by (simp add: spec_code_def)
qed









lemma sub_loop_length: "length (sub_loop fl r [] adv p rest) \<le> length rest"
proof (induction fl r "[] :: string" adv p rest rule: sub_loop.induct)
  case (1 fl r adv p rest)
  show ?case
  proof (cases "search_at fl r adv p rest")
    case None
    then show ?thesis by (subst sub_loop.simps) simp
  next
    case (Some x)
    obtain b e caps where x: "x = (b, e, caps)" by (cases x) auto
    from search_at_bounds[OF Some[unfolded x]] have bd: "p \<le> b" "b \<le> e" "e \<le> p + length rest"
      by simp_all
    from 1[OF Some, of b "(e, caps)" e caps] x
    have ih: "length (sub_loop fl r [] (e = b) e (drop (e - p) rest)) \<le> length (drop (e - p) rest)"
      by simp
    have "sub_loop fl r [] adv p rest = take (b - p) rest @ sub_loop fl r [] (e = b) e (drop (e - p) rest)"
      by (subst sub_loop.simps) (simp add: Some x)
    then show ?thesis using ih bd by simp
  qed
qed

lemma sub_loop_shorter:
  assumes "search_at fl r adv p rest = Some (b, e, caps)" "b < e"
  shows "length (sub_loop fl r [] adv p rest) < length rest"
proof -
  from search_at_bounds[OF assms(1)] have bd: "p \<le> b" "b \<le> e" "e \<le> p + length rest"
    by simp_all
  have "sub_loop fl r [] adv p rest = take (b - p) rest @ sub_loop fl r [] (e = b) e (drop (e - p) rest)"
    by (subst sub_loop.simps) (simp add: assms(1))
  moreover have "length (sub_loop fl r [] (e = b) e (drop (e - p) rest)) \<le> length (drop (e - p) rest)"
    by (rule sub_loop_length)
  ultimately show ?thesis using bd assms(2) by simp
qed

lemma re_sub_length:
  assumes "re_sub pat [] s fl = Inr s'"
  shows "length s' \<le> length s"
  using assms sub_loop_length[of fl _ False 0 s]
  by (auto simp: re_sub_def split: sum.splits)

lemma match_not_empty:
  assumes "search_regex fl r s = Some m" "[] \<notin> lang fl r"
  shows "m_start m < m_end m"
proof -
  from search_regex_sound[OF assms(1)] obtain rest' where
    mem: "(m_end m, rest', m_groups m) \<in> set (matches fl r (m_start m, drop (m_start m) s, Map.empty))"
    by blast
  from matches_lang(1)[OF mem] obtain w where
    w: "w \<in> lang fl r" "m_end m = m_start m + length w"
    by (auto simp: consumed_def)
  with assms(2) have "w \<noteq> []" by auto
  with w(2) show ?thesis by simp
qed

lemma re_sub_shorter:
  assumes c: "re_compile fl pat = Inr r" and ne: "[] \<notin> lang fl r"
    and m: "re_search pat s fl \<noteq> Inr None"
  shows "\<exists>s'. re_sub pat [] s fl = Inr s' \<and> length s' < length s"
proof -
  from m c obtain mt where mt: "search_regex fl r s = Some mt"
    by (auto simp: re_search_def)
  from match_not_empty[OF mt ne] have lt: "m_start mt < m_end mt" .
  from mt obtain b e caps where sa: "search_at fl r False 0 s = Some (b, e, caps)"
    and "mt = \<lparr>m_string = s, m_start = b, m_end = e, m_groups = caps\<rparr>"
    by (auto simp: search_regex_def split: option.splits)
  with lt have "b < e" by simp
  from sub_loop_shorter[OF sa this] c show ?thesis by (simp add: re_sub_def)
qed

lemma ordinal_not_empty: "[] \<notin> lang no_flags (Seq [Bol, Rep Plus True Digit, Rep Plus True Space])"
  by (auto simp: char_lang_def)

lemma heading_not_empty: "[] \<notin> lang IGNORECASE heading_pattern"
proof
  let ?H = "''Bibliografia Complementar''"
  define L where "L = map Lit ?H"
  define G where "G = Grp 1 (Seq (L @ [Rep Star True Space]))"
  have hp: "heading_pattern = Seq [Rep Plus True G, Eol]"
    by (simp add: heading_pattern_def G_def L_def)
  have ic: "ignorecase IGNORECASE" by (simp add: IGNORECASE_def)
  assume "[] \<in> lang IGNORECASE heading_pattern"
  then have "[] \<in> lang IGNORECASE G" unfolding hp by auto
  then have "[] \<in> lang_seq IGNORECASE (L @ [Rep Star True Space])" by (simp add: G_def)
  then obtain a b where "[] = a @ b" "a \<in> lang_seq IGNORECASE L"
    unfolding lang_seq_append by blast
  then have a: "[] \<in> lang_seq IGNORECASE (map Lit ?H)" by (simp add: L_def)
  from lang_seq_lits_ci[OF ic a] show False by simp
qed

lemma collapse_ws_length: "length (collapse_ws b s) \<le> length s"
  by (induction s arbitrary: b) (auto simp: le_SucI)

lemma strip_length: "length (strip s) \<le> length s"
proof -
  have "length (dropWhile isspace (rev (dropWhile isspace s))) \<le> length (rev (dropWhile isspace s))"
    by (rule length_dropWhile_le)
  also have "\<dots> \<le> length s" using length_dropWhile_le[of isspace s] by simp
  finally show ?thesis by (simp add: strip_def)
qed

lemma clean_default_steps:
  assumes n: "normal c" and b: "lower c \<notin> set boilerplate"
  shows "\<exists>t1 t2. re_sub (''^'' @ bs_d @ ''+'' @ bs_s @ ''+'') [] c no_flags = Inr t1
           \<and> re_sub (''(Bibliografia Complementar'' @ bs_s @ ''*)+$'') [] t1 IGNORECASE = Inr t2
           \<and> clean_chunk_text c None = Inr (strip (collapse_ws False t2))"
proof -
  have j: "join [newline]
     (filter (\<lambda>line. strip line \<noteq> [] \<and> lower (strip line) \<notin> set boilerplate) (split_on newline c)) = c"
  proof (cases "c = []")
    case True
    then show ?thesis by simp
  next
    case False
    with n have st: "strip c = c" by (simp add: normal_def strip_id)
    have nl: "newline \<notin> set c"
      using n isspace_newline by (auto simp: normal_def single_spaced_def)
    show ?thesis using False b by (simp add: split_on_no_sep[OF nl] st)
  qed
  from re_sub_total[OF fixed_sub_patterns(3)] obtain t1 where
    t1: "re_sub (''^'' @ bs_d @ ''+'' @ bs_s @ ''+'') [] c no_flags = Inr t1" by blast
  from re_sub_total[OF fixed_sub_patterns(4)] obtain t2 where
    t2: "re_sub (''(Bibliografia Complementar'' @ bs_s @ ''*)+$'') [] t1 IGNORECASE = Inr t2" by blast
  have t3: "re_sub (bs_s @ ''+'') '' '' t2 no_flags = Inr (collapse_ws False t2)"
    unfolding re_sub_def space_pattern_compile by (simp add: sub_loop_space)
  have "clean_chunk_text c None = Inr (strip (collapse_ws False t2))"
    unfolding clean_chunk_text_def Let_def j
    by (simp only: t1 t2 t3 and_then_def sum.case) simp
  with t1 t2 show ?thesis by blast
qed

lemma clean_default_changes:
  assumes n: "normal c"
    and f: "clean_chunk_text c None = Inr c"
  shows "lower c \<notin> set boilerplate
       \<and> re_search (''^'' @ bs_d @ ''+'' @ bs_s @ ''+'') c no_flags = Inr None
       \<and> re_search (''(Bibliografia Complementar'' @ bs_s @ ''*)+$'') c IGNORECASE = Inr None"
proof -
  have nb: "lower c \<notin> set boilerplate"
  proof
    assume b: "lower c \<in> set boilerplate"
    have "[] \<notin> set boilerplate" by code_simp
    with b have ne: "c \<noteq> []" by (auto simp: lower_def)
    with n have st: "strip c = c" by (simp add: normal_def strip_id)
    have nl: "newline \<notin> set c"
      using n isspace_newline by (auto simp: normal_def single_spaced_def)
    have j: "join [newline]
       (filter (\<lambda>line. strip line \<noteq> [] \<and> lower (strip line) \<notin> set boilerplate) (split_on newline c)) = []"
      using b by (simp add: split_on_no_sep[OF nl] st)
    have e: "clean_chunk_text [] None = Inr []" by code_simp
    have "clean_chunk_text c None = clean_chunk_text [] None"
      unfolding clean_chunk_text_def Let_def j by simp
    with e f ne show False by simp
  qed
  from clean_default_steps[OF n nb] obtain t1 t2 where
    t1: "re_sub (''^'' @ bs_d @ ''+'' @ bs_s @ ''+'') [] c no_flags = Inr t1"
    and t2: "re_sub (''(Bibliografia Complementar'' @ bs_s @ ''*)+$'') [] t1 IGNORECASE = Inr t2"
    and r: "clean_chunk_text c None = Inr (strip (collapse_ws False t2))" by blast
  from r f have "c = strip (collapse_ws False t2)" by simp
  then have "length c \<le> length t2"
    using strip_length[of "collapse_ws False t2"] collapse_ws_length[of False t2] by simp
  with re_sub_length[OF t2] have l2: "length c \<le> length t2" "length c \<le> length t1" by simp_all
  have o: "re_search (''^'' @ bs_d @ ''+'' @ bs_s @ ''+'') c no_flags = Inr None"
  proof (rule ccontr)
    assume "re_search (''^'' @ bs_d @ ''+'' @ bs_s @ ''+'') c no_flags \<noteq> Inr None"
    from re_sub_shorter[OF ordinal_pattern_compile ordinal_not_empty this] t1
    have "length t1 < length c" by simp
    with l2 show False by simp
  qed
  from re_sub_unmatched[OF o, of "[]"] t1 have t1c: "t1 = c" by simp
  have h: "re_search (''(Bibliografia Complementar'' @ bs_s @ ''*)+$'') c IGNORECASE = Inr None"
  proof (rule ccontr)
    assume "re_search (''(Bibliografia Complementar'' @ bs_s @ ''*)+$'') c IGNORECASE \<noteq> Inr None"
    from re_sub_shorter[OF heading_pattern_compile heading_not_empty this] t2 t1c
    have "length t2 < length c" by simp
    with l2 show False by simp
  qed
  from nb o h show ?thesis by simp
qed






section \<open>The claims\<close>

subsection \<open>C1: chunks with empty text\<close>

text \<open>
  Claim C1: every chunk that \<open>process_pdf_content\<close> returns with a \<open>tipo\<close> other than
  \<open>identificacao\<close> has a non-empty text. The code tests the section for emptiness
  before it cleans it, and cleaning can remove everything: for the text
  \<open>"Objetivo\nTotal\nEmenta"\<close> the objective section is \<open>"Total"\<close>, a line of the
  boilerplate list, and the chunk of tipo \<open>objetivo\<close> is emitted with the empty text.
\<close>

theorem empty_objetivo_chunk_emitted:
  "(case process_pdf_content (''Objetivo'' @ [newline] @ ''Total'' @ [newline] @ ''Ementa'') ''x.pdf'' of
      Inr (md, chunks) \<Rightarrow>
        map (\<lambda>c. (tipo c, chunk_text c)) chunks =
          [(''identificacao'',
            ''Informa'' @ [c_cedilla, o_tilde] @ ''es da disciplina N/A N/A. Carga Hor''
              @ [a_acute] @ ''ria N/A''),
           (''objetivo'', [])]
    | Inl e \<Rightarrow> False)"
  by code_simp

subsection \<open>C3: the code used for storage\<close>

text \<open>
  Claim C3: for every document the driver overwrites \<open>metadata.codigo\<close> with the stem of
  the file name, and that code is the one in every stored record and identifier.
  \<open>process_pdf_and_add_to_collections\<close> does so; the loop of
  \<open>process_all_pdfs_in_directory\<close>, which the pipeline runs, takes \<open>metadata['codigo']\<close>
  as the chunker left it. For the file \<open>OP63P.pdf\<close> with the text \<open>"CC5A x"\<close> the
  directory driver stores the code of the text, the function for one PDF the stem.
\<close>

theorem directory_driver_stores_text_codigo:
  "map (\<lambda>c. map (\<lambda>r. (rec_id r, rec_metadata r ''codigo'')) (coll_records c))
     (collections
        (process_all_pdfs_in_directory
           (\<lambda>p. if p = ''dir/OP63P.pdf'' then Some ''CC5A x'' else None)
           (Some [''OP63P.pdf'']) ''dir'' [(''m'', \<lambda>t. Inr (0::nat))]
           [\<lparr>coll_name = ''ementas-disciplinas_m'', coll_records = []\<rparr>]))
     = [[(''CC5A_identificacao_0_m'', Some ''CC5A'')]]
   \<and>
   map (\<lambda>c. map (\<lambda>r. (rec_id r, rec_metadata r ''codigo'')) (coll_records c))
     (collections
        (process_pdf_and_add_to_collections
           (\<lambda>p. if p = ''dir/OP63P.pdf'' then Some ''CC5A x'' else None)
           ''dir/OP63P.pdf'' [(''m'', \<lambda>t. Inr (0::nat))]
           \<lparr>collections = [\<lparr>coll_name = ''ementas-disciplinas_m'', coll_records = []\<rparr>],
            printed = [], chunks_por_disciplina = Map.empty\<rparr>))
     = [[(''OP63P_identificacao_0_m'', Some ''OP63P'')]]"
  by code_simp


subsection \<open>C7: a start marker that does not occur\<close>

text \<open>
  Claim C7: for every text and every pair of markers, \<open>extract_section_from_pdf\<close> returns
  the empty string, and does not raise, when the start marker does not occur in the
  text. The markers are put into the pattern as they are, so a marker is read as a
  regular expression: the marker \<open>"."\<close> does not occur in \<open>"ab"\<close>, and the result is
  \<open>"b"\<close>.
\<close>

theorem start_marker_dot_counterexample:
  "\<not> sublist ''.'' ''ab'' \<and> extract_section_from_pdf ''ab'' ''.'' None = Inr ''b''"
  by code_simp

text \<open>
  Claim C7, amended: for markers made of characters that stand for themselves in a
  pattern (none of \<open>. ^ $ | ( ) { [ * + ?\<close> and no backslash), with the end marker given or not, a
  start marker that does not occur in the text gives the empty string, without an
  exception.
\<close>

theorem absent_plain_start_marker_gives_empty:
  assumes "list_all plain section_start"
    and "list_all plain (case section_end of None \<Rightarrow> [] | Some e \<Rightarrow> e)"
    and "\<not> sublist section_start txt"
  shows "extract_section_from_pdf txt section_start section_end = Inr []"
proof -
  have nf: "\<not> ignorecase DOTALL" by (simp add: DOTALL_def)
  have none: "search_regex DOTALL (Seq (map Lit section_start @ rs)) txt = None" for rs
  proof (rule search_regex_no_match)
    fix k
    have "\<not> prefix section_start (drop k txt)"
      using assms(3) prefix_drop_sublist by blast
    then show "matches DOTALL (Seq (map Lit section_start @ rs)) (k, drop k txt, Map.empty) = []"
      by (simp add: matches_lits[OF nf])
  qed
  show ?thesis
  proof (cases "section_end = None \<or> section_end = Some []")
    case True
    then show ?thesis
      by (auto simp: extract_section_from_pdf_def re_search_def
          compile_section_fallback[OF assms(1)] none and_then_def)
  next
    case False
    then obtain e where e: "section_end = Some e" "e \<noteq> []" by auto
    with assms(2) have "list_all plain e" by simp
    from compile_section_end[OF assms(1) this] e show ?thesis
      using none[of "Grp 1 (Seq [Rep Star False Any]) # map Lit e"]
      by (simp add: extract_section_from_pdf_def re_search_def and_then_def)
  qed
qed

theorem absent_plain_start_marker_witness:
  "list_all plain ''Objetivo'' \<and> list_all plain ''Ementa''
   \<and> \<not> sublist ''Objetivo'' ''Ementa: grafos''
   \<and> extract_section_from_pdf ''Ementa: grafos'' ''Objetivo'' (Some ''Ementa'') = Inr []"
proof -
  have 1: "list_all plain ''Objetivo''" by code_simp
  have 2: "list_all plain (case Some ''Ementa'' of None \<Rightarrow> [] | Some e \<Rightarrow> e)" by code_simp
  have 3: "\<not> sublist ''Objetivo'' ''Ementa: grafos''" by code_simp
  from absent_plain_start_marker_gives_empty[OF 1 2 3] 1 2 3 show ?thesis by simp
qed

subsection \<open>C10: an end marker that does not occur\<close>

text \<open>
  Claim C10: when an end marker is given, the text contains the start marker and the end
  marker does not occur after it, the result is the empty string; the fallback
  terminators are not used for an end marker that was given and is absent. An end
  marker is read as a regular expression too: \<open>"$"\<close> does not occur in \<open>"ab"\<close>, and
  the result for the markers \<open>"a"\<close> and \<open>"$"\<close> is \<open>"b"\<close>.
\<close>

theorem end_marker_dollar_counterexample:
  "sublist ''a'' ''ab'' \<and> \<not> occurs_after ''a'' ''$'' ''ab''
   \<and> extract_section_from_pdf ''ab'' ''a'' (Some ''$'') = Inr ''b''"
  by code_simp

text \<open>
  Claim C10, amended: for markers made of characters that stand for themselves in a
  pattern, with a non-empty end marker, if the text contains the start marker and no
  occurrence of the start marker is followed by the end marker, the result is the empty
  string, also when a fallback terminator follows the start marker.
\<close>

theorem absent_plain_end_marker_gives_empty:
  assumes "list_all plain section_start"
    and "list_all plain e"
    and "e \<noteq> []"
    and "sublist section_start txt"
    and "\<not> occurs_after section_start e txt"
  shows "extract_section_from_pdf txt section_start (Some e) = Inr []"
proof -
  have nf: "\<not> ignorecase DOTALL" by (simp add: DOTALL_def)
  let ?r = "Seq (map Lit section_start @ Grp 1 (Seq [Rep Star False Any]) # map Lit e)"
  have "search_regex DOTALL ?r txt = None"
  proof (rule search_regex_no_match)
    fix k
    show "matches DOTALL ?r (k, drop k txt, Map.empty) = []"
    proof (cases "prefix section_start (drop k txt)")
      case False
      then show ?thesis by (simp add: matches_lits[OF nf])
    next
      case True
      define st1 :: mstate
        where "st1 = (k + length section_start, drop (length section_start) (drop k txt), Map.empty)"
      have "matches_seq DOTALL (map Lit e) st2 = []"
        if "st2 \<in> set (matches DOTALL (Grp 1 (Seq [Rep Star False Any])) st1)" for st2
      proof -
        obtain p2 rest2 caps2 where st2: "st2 = (p2, rest2, caps2)" by (cases st2) auto
        from matches_reaches(1)[OF that] st2 obtain j where
          rest2: "rest2 = drop j (drop (length section_start) (drop k txt))"
          by (auto simp: reaches_def st1_def)
        have "\<not> prefix e rest2"
        proof
          assume pe: "prefix e rest2"
          from True obtain z where z: "drop k txt = section_start @ z" by (auto simp: prefix_def)
          from pe rest2 z obtain y where "drop j z = e @ y" by (auto simp: prefix_def)
          then have "z = take j z @ e @ y" by (metis append_take_drop_id)
          with z have "drop k txt = section_start @ take j z @ e @ y" by simp
          then have "txt = take k txt @ section_start @ take j z @ e @ y"
            by (metis append_take_drop_id)
          then have "occurs_after section_start e txt"
            unfolding occurs_after_iff by blast
          with assms(5) show False by simp
        qed
        then show ?thesis
          using matches_lits[OF nf, of e "[]" p2 rest2 caps2] st2 by simp
      qed
      then have empty: "concat (map (\<lambda>s. matches_seq DOTALL (map Lit e) s)
                   (matches DOTALL (Grp 1 (Seq [Rep Star False Any])) st1)) = []"
        by simp
      have "matches DOTALL ?r (k, drop k txt, Map.empty) =
              matches_seq DOTALL (map Lit section_start @ Grp 1 (Seq [Rep Star False Any]) # map Lit e)
                (k, drop k txt, Map.empty)"
        by simp
      also have "\<dots> = matches_seq DOTALL (Grp 1 (Seq [Rep Star False Any]) # map Lit e) st1"
        using True unfolding st1_def by (simp only: matches_lits[OF nf] if_True)
      also have "\<dots> = concat (map (\<lambda>s. matches_seq DOTALL (map Lit e) s)
                   (matches DOTALL (Grp 1 (Seq [Rep Star False Any])) st1))"
        by (simp only: matches_seq.simps)
      finally show ?thesis using empty by simp
    qed
  qed
  with compile_section_end[OF assms(1,2)] assms(3) show ?thesis
    by (simp add: extract_section_from_pdf_def re_search_def and_then_def)
qed

theorem absent_plain_end_marker_witness:
  "list_all plain ''Objetivo'' \<and> list_all plain ''Ementa'' \<and> ''Ementa'' \<noteq> []
   \<and> sublist ''Objetivo'' ''Objetivo x Bibliografia''
   \<and> \<not> occurs_after ''Objetivo'' ''Ementa'' ''Objetivo x Bibliografia''
   \<and> extract_section_from_pdf ''Objetivo x Bibliografia'' ''Objetivo'' (Some ''Ementa'') = Inr []
   \<and> extract_section_from_pdf ''Objetivo x Bibliografia'' ''Objetivo'' None = Inr ''x''"
proof -
  have 1: "list_all plain ''Objetivo''" by code_simp
  have 2: "list_all plain ''Ementa''" by code_simp
  have 3: "''Ementa'' \<noteq> []" by simp
  have 4: "sublist ''Objetivo'' ''Objetivo x Bibliografia''" by code_simp
  have 5: "\<not> occurs_after ''Objetivo'' ''Ementa'' ''Objetivo x Bibliografia''" by code_simp
  have 6: "extract_section_from_pdf ''Objetivo x Bibliografia'' ''Objetivo'' None = Inr ''x''"
    by code_simp
  from absent_plain_end_marker_gives_empty[OF 1 2 3 4 5] 1 2 4 5 6 show ?thesis by simp
qed

subsection \<open>C9: a document that fails\<close>

text \<open>
  Claim C9: an exception raised while one document is chunked, embedded or inserted is
  caught and logged with the path of the document, and the driver goes on with the next
  document; what was already inserted for the failing document stays, and the
  documents after it are processed. In the model the body of the \<open>try\<close> is
  \<open>process_file\<close>, which returns the exception, if any, with the state at the moment it
  was raised. The theorem is for a document \<open>f\<close> that fails with an exception of the
  code (\<open>NotModelled\<close> stands for a pattern that the model of \<open>re\<close> does not cover, not
  for an exception) after the documents \<open>before\<close> have been processed. It says:

  \<^item> the run over \<open>before @ f # after\<close> is the run over \<open>after\<close> from the state at the
    failure with the error line added;

  \<^item> either the chunker raised, and the collections are as they were when \<open>f\<close> was
    started, or chunk \<open>n\<close> raised for model \<open>k\<close>, in its embedding or its insertion, and
    then the collections of the models before \<open>k\<close> hold, after their earlier records,
    the records of all chunks of \<open>f\<close>, the collection of model \<open>k\<close> those of the chunks
    before \<open>n\<close>, and the later collections are as they were (\<open>kept_until_failure\<close>);

  \<^item> nothing of the state at the failure is taken back by the rest of the run
    (\<open>grows\<close>), and the error line with the path and the exception is among the printed
    lines at the end.
\<close>

theorem failing_document_does_not_stop_the_run:
  assumes "process_file pdf_text models f (process_files pdf_text models before st) = (Some e, st')"
    and "e \<noteq> NotModelled"
  shows "process_files pdf_text models (before @ f # after) st =
           process_files pdf_text models after (st'\<lparr>printed := printed st' @ [ErrorProcessing f e]\<rparr>)
         \<and> (\<exists>txt. pdf_text f = Some txt
              \<and> (case process_pdf_content txt (basename f) of
                    Inl e' \<Rightarrow> e' = e
                      \<and> collections st' = collections (process_files pdf_text models before st)
                  | Inr (md, chunks) \<Rightarrow>
                      \<exists>codigo k n. md ''codigo'' = Some codigo
                        \<and> k < length models
                        \<and> k < length (collections (process_files pdf_text models before st))
                        \<and> n < length chunks
                        \<and> fails_at (models ! k) codigo (basename f) n (chunks ! n)
                             (collections st' ! k) e
                        \<and> kept_until_failure models codigo (basename f) chunks k n
                             (collections (process_files pdf_text models before st))
                             (collections st')))
         \<and> grows (process_files pdf_text models before st) st'
         \<and> grows st' (process_files pdf_text models (before @ f # after) st)
         \<and> ErrorProcessing f e \<in> set (printed (process_files pdf_text models (before @ f # after) st))"
proof -
  let ?logged = "st'\<lparr>printed := printed st' @ [ErrorProcessing f e]\<rparr>"
  have run: "process_files pdf_text models (before @ f # after) st =
               process_files pdf_text models after ?logged"
    using assms(1) by (simp add: process_files_append)
  have kept: "grows (process_files pdf_text models before st) st'"
    using assms(1) by (rule process_file_grows)
  have "grows st' ?logged" by (simp add: grows_def list_all2_refl)
  moreover have rest: "grows ?logged (process_files pdf_text models after ?logged)"
    by (rule process_files_grows)
  ultimately have later: "grows st' (process_files pdf_text models (before @ f # after) st)"
    using run grows_trans by metis
  from rest have "prefix (printed ?logged) (printed (process_files pdf_text models after ?logged))"
    by (simp add: grows_def)
  then have "set (printed ?logged) \<subseteq> set (printed (process_files pdf_text models after ?logged))"
    by (rule set_mono_prefix)
  then have "ErrorProcessing f e \<in> set (printed (process_files pdf_text models after ?logged))"
    by auto
  with run kept later process_file_failure[OF assms(1)] show ?thesis by simp
qed

text \<open>
  A run with two documents and two models. The first document has two chunks, and the
  second model raises on the text of its second chunk: both chunks are in the first
  collection and the first chunk is in the second collection when the document fails,
  and they are there at the end, with the records of the second document after them.
\<close>

theorem failing_document_witness:
  "fst (process_file redes_pdfs redes_models ''d/a.pdf'' two_empty) = Some EmbeddingError
   \<and> EmbeddingError \<noteq> NotModelled
   \<and> map (\<lambda>c. map rec_id (coll_records c))
        (collections (snd (process_file redes_pdfs redes_models ''d/a.pdf'' two_empty)))
      = [[''a_identificacao_0_m1'', ''a_objetivo_1_m1''], [''a_identificacao_0_m2'']]
   \<and> map (\<lambda>c. map rec_id (coll_records c))
        (collections (process_files redes_pdfs redes_models [''d/a.pdf'', ''d/b.pdf''] two_empty))
      = [[''a_identificacao_0_m1'', ''a_objetivo_1_m1'', ''b_identificacao_0_m1''],
         [''a_identificacao_0_m2'', ''b_identificacao_0_m2'']]
   \<and> (\<exists>txt. redes_pdfs ''d/a.pdf'' = Some txt
         \<and> (case process_pdf_content txt (basename ''d/a.pdf'') of
               Inl e' \<Rightarrow> e' = EmbeddingError
                 \<and> collections (snd (process_file redes_pdfs redes_models ''d/a.pdf'' two_empty))
                     = collections two_empty
             | Inr (md, chunks) \<Rightarrow>
                 \<exists>codigo k n. md ''codigo'' = Some codigo
                   \<and> k < length redes_models
                   \<and> k < length (collections two_empty)
                   \<and> n < length chunks
                   \<and> fails_at (redes_models ! k) codigo (basename ''d/a.pdf'') n (chunks ! n)
                        (collections (snd (process_file redes_pdfs redes_models ''d/a.pdf'' two_empty)) ! k)
                        EmbeddingError
                   \<and> kept_until_failure redes_models codigo (basename ''d/a.pdf'') chunks k n
                        (collections two_empty)
                        (collections (snd (process_file redes_pdfs redes_models ''d/a.pdf'' two_empty)))))
   \<and> grows (snd (process_file redes_pdfs redes_models ''d/a.pdf'' two_empty))
        (process_files redes_pdfs redes_models [''d/a.pdf'', ''d/b.pdf''] two_empty)
   \<and> ErrorProcessing ''d/a.pdf'' EmbeddingError
        \<in> set (printed (process_files redes_pdfs redes_models [''d/a.pdf'', ''d/b.pdf''] two_empty))"
proof -
  have 1: "fst (process_file redes_pdfs redes_models ''d/a.pdf'' two_empty) = Some EmbeddingError"
    by code_simp
  have 2: "EmbeddingError \<noteq> NotModelled" by simp
  have 3: "map (\<lambda>c. map rec_id (coll_records c))
        (collections (snd (process_file redes_pdfs redes_models ''d/a.pdf'' two_empty)))
      = [[''a_identificacao_0_m1'', ''a_objetivo_1_m1''], [''a_identificacao_0_m2'']]"
    by code_simp
  have 4: "map (\<lambda>c. map rec_id (coll_records c))
        (collections (process_files redes_pdfs redes_models [''d/a.pdf'', ''d/b.pdf''] two_empty))
      = [[''a_identificacao_0_m1'', ''a_objetivo_1_m1'', ''b_identificacao_0_m1''],
         [''a_identificacao_0_m2'', ''b_identificacao_0_m2'']]"
    by code_simp
  have h: "process_file redes_pdfs redes_models ''d/a.pdf'' (process_files redes_pdfs redes_models [] two_empty)
             = (Some EmbeddingError, snd (process_file redes_pdfs redes_models ''d/a.pdf'' two_empty))"
    using 1 by (simp add: prod_eq_iff)
  note run = failing_document_does_not_stop_the_run[OF h 2, of "[''d/b.pdf'']",
      unfolded append_Nil process_files.simps(1)]
  from 1 2 3 4 run[THEN conjunct2, THEN conjunct1]
    run[THEN conjunct2, THEN conjunct2, THEN conjunct2, THEN conjunct1]
    run[THEN conjunct2, THEN conjunct2, THEN conjunct2, THEN conjunct2]
  show ?thesis by (intro conjI)
qed

subsection \<open>C6: storage identifiers\<close>

text \<open>
  Claim C6: within one document the identifiers \<open>"{codigo}_{tipo}_{i}_{model}"\<close>, with
  the \<open>tipo\<close> of chunk \<open>i\<close> and \<open>i\<close> its position in the chunk list, are different for
  different pairs of a chunk index and a model name. The theorem is for any chunk list
  that \<open>process_pdf_content\<close> returns, any \<open>codigo\<close> and any two model names: two
  identifiers are equal only when the indices are equal and the model names are equal.
  It rests on the six values of \<open>tipo\<close> that the chunker writes, none of which is the
  beginning of another, and on the index being written in decimal digits.
\<close>

theorem chunk_ids_distinct:
  assumes "process_pdf_content t filename = Inr (md, chunks)"
    and "i < length chunks" and "j < length chunks"
  shows "(chunk_id codigo (tipo (chunks ! i)) i m = chunk_id codigo (tipo (chunks ! j)) j n)
           = (i = j \<and> m = n)"
proof -
  from process_pdf_content_shape[OF assms(1)] obtain ident others where
    "section_chunks t md = Inr others"
    "chunks = \<lparr>chunk_text = ident, tipo = ''identificacao'', chunk_metadata = md\<rparr> # others"
    by blast
  with section_chunks_tipo[of t md others]
  have "\<forall>c \<in> set chunks. tipo c \<in> set tipos" by (auto simp: tipos_def)
  with assms(2,3) have "tipo (chunks ! i) \<in> set tipos" "tipo (chunks ! j) \<in> set tipos"
    by simp_all
  from chunk_id_inj[OF this] show ?thesis by auto
qed

theorem chunk_ids_distinct_witness:
  "(case process_pdf_content ''Objetivo a Ementa'' ''OP63P.pdf'' of
      Inr (md, chunks) \<Rightarrow>
        length chunks = 2
        \<and> chunk_id ''OP63P'' (tipo (chunks ! 0)) 0 ''m'' \<noteq> chunk_id ''OP63P'' (tipo (chunks ! 1)) 1 ''m''
        \<and> chunk_id ''OP63P'' (tipo (chunks ! 1)) 1 ''m'' \<noteq> chunk_id ''OP63P'' (tipo (chunks ! 1)) 1 ''m2''
    | Inl e \<Rightarrow> False)"
proof -
  have "(case process_pdf_content ''Objetivo a Ementa'' ''OP63P.pdf'' of
           Inr (md, chunks) \<Rightarrow> length chunks = 2 | Inl e \<Rightarrow> False)"
    by code_simp
  then obtain md chunks where
    eq: "process_pdf_content ''Objetivo a Ementa'' ''OP63P.pdf'' = Inr (md, chunks)"
    and len: "length chunks = 2"
    by (cases "process_pdf_content ''Objetivo a Ementa'' ''OP63P.pdf''") auto
  from len have 0: "0 < length chunks" and 1: "1 < length chunks" by simp_all
  from chunk_ids_distinct[OF eq 0 1, of "''OP63P''" "''m''" "''m''"]
    chunk_ids_distinct[OF eq 1 1, of "''OP63P''" "''m''" "''m2''"] eq len
  show ?thesis by simp
qed

subsection \<open>C4: the identification sentence\<close>




subsection \<open>C8: the course code and the course name of the header\<close>

text \<open>
  Claim C8: for every text containing an occurrence of the course-code pattern (a prefix
  of the fixed set, then digits and an optional final letter), the metadata extractor
  sets \<open>codigo\<close> to the matched substring and \<open>disciplina\<close> to the text after it up to
  the next newline, trimmed. The final letter is not optional in the pattern of the
  source, \<open>(CC|PP)\d+[A-Z]\<close>: the text \<open>"CC56"\<close> is a prefix followed by digits, and the
  extractor sets neither \<open>codigo\<close> nor \<open>disciplina\<close> for it.
\<close>

theorem code_without_letter_counterexample:
  "spec_code_shape extractor_prefixes ''CC56'' \<and> sublist ''CC56'' ''CC56''
   \<and> (case extract_metadata_from_header ''CC56'' of
         Inl e \<Rightarrow> False
       | Inr md \<Rightarrow> md ''codigo'' = None \<and> md ''disciplina'' = None)"
  by code_simp

text \<open>
  Claim C8, amended: a course code is \<open>CC\<close> or \<open>PP\<close>, then one or more digits, then one
  capital letter \<open>A\<close> to \<open>Z\<close>. For every text containing a course code, the extractor
  succeeds, \<open>codigo\<close> is the course code that starts leftmost in the text, unchanged,
  and \<open>disciplina\<close> is the text from the end of that code up to the next newline (or
  the end of the text), stripped.
\<close>

theorem course_code_sets_codigo_and_disciplina:
  assumes t: "t = pre @ code @ post"
    and sh: "code_shape extractor_prefixes extractor_last code"
  shows "\<exists>md pre' code' post'.
           extract_metadata_from_header t = Inr md
           \<and> t = pre' @ code' @ post'
           \<and> code_shape extractor_prefixes extractor_last code'
           \<and> (\<forall>pre2 code2 post2.
                 t = pre2 @ code2 @ post2 \<and> code_shape extractor_prefixes extractor_last code2
                   \<longrightarrow> length pre' \<le> length pre2)
           \<and> md ''codigo'' = Some code'
           \<and> md ''disciplina'' = Some (strip (takeWhile (\<lambda>c. c \<noteq> newline) post'))"
proof -
  have occ: "code_at (drop (length pre2) t) = Some code2"
    if "t = pre2 @ code2 @ post2" "code_shape extractor_prefixes extractor_last code2"
    for pre2 code2 post2
    using that shape_code_at[of code2 post2] by simp
  have "find_code_from 0 t \<noteq> None"
  proof
    assume "find_code_from 0 t = None"
    from find_code_from_None[OF this, of "length pre"] occ[OF t sh] show False by simp
  qed
  then obtain b code' where f: "find_code_from 0 t = Some (b, code')"
    by (cases "find_code_from 0 t") auto
  from find_code_from_Some[OF f] have b: "b < length t"
    and ca: "code_at (drop b t) = Some code'"
    and first: "\<forall>k < b. code_at (drop k t) = None"
    by simp_all
  from code_at_shape[OF ca] have pf: "prefix code' (drop b t)"
    and sh': "code_shape extractor_prefixes extractor_last code'"
    by simp_all
  define pre' where "pre' = take b t"
  define post' where "post' = drop (b + length code') t"
  from pf obtain zs where zs: "drop b t = code' @ zs"
    by (auto simp: prefix_def)
  then have "drop (length code') (drop b t) = zs" by simp
  then have "zs = post'" by (simp add: post'_def add.commute)
  with zs have "drop b t = code' @ post'" by simp
  then have t': "t = pre' @ code' @ post'"
    unfolding pre'_def by (metis append_take_drop_id)
  have lp: "length pre' = b" using b by (simp add: pre'_def)
  have left: "length pre' \<le> length pre2"
    if "t = pre2 @ code2 @ post2 \<and> code_shape extractor_prefixes extractor_last code2"
    for pre2 code2 post2
  proof (rule ccontr)
    assume "\<not> length pre' \<le> length pre2"
    then have "length pre2 < b" using lp by simp
    with first have "code_at (drop (length pre2) t) = None" by simp
    moreover from that have "code_at (drop (length pre2) t) = Some code2"
      using occ by blast
    ultimately show False by simp
  qed
  from extract_metadata_code[OF f] obtain md where
    md: "extract_metadata_from_header t = Inr md" "md ''codigo'' = Some code'"
      "md ''disciplina'' = Some (strip (takeWhile (\<lambda>c. c \<noteq> newline) post'))"
    unfolding post'_def by blast
  from md t' sh' left show ?thesis by blast
qed

theorem course_code_witness:
  "code_shape extractor_prefixes extractor_last ''CC56E''
   \<and> (\<exists>md pre' code' post'.
         extract_metadata_from_header (''OP63P '' @ ''CC56E'' @ '' Grafos'') = Inr md
         \<and> ''OP63P '' @ ''CC56E'' @ '' Grafos'' = pre' @ code' @ post'
         \<and> code_shape extractor_prefixes extractor_last code'
         \<and> (\<forall>pre2 code2 post2.
               ''OP63P '' @ ''CC56E'' @ '' Grafos'' = pre2 @ code2 @ post2
                 \<and> code_shape extractor_prefixes extractor_last code2
                 \<longrightarrow> length pre' \<le> length pre2)
         \<and> md ''codigo'' = Some code'
         \<and> md ''disciplina'' = Some (strip (takeWhile (\<lambda>c. c \<noteq> newline) post')))"
proof -
  have 1: "code_shape extractor_prefixes extractor_last ''CC56E''" by code_simp
  from 1 course_code_sets_codigo_and_disciplina[OF refl 1, of "''OP63P ''" "'' Grafos''"]
  show ?thesis by (rule conjI)
qed

subsection \<open>C5: the identification chunk\<close>

text \<open>
  Claim C5: for every raw text and every filename, the chunk list returned by
  \<open>process_pdf_content\<close> contains exactly one chunk of tipo \<open>identificacao\<close>, at index 0,
  built from the first 500 characters cleaned by the identification branch, whatever
  other sections are found. Not every text and filename give a chunk list: when the text
  has no course code, the stem of the filename is put into a regular expression as it
  is, and for the filename \<open>"(.pdf"\<close> compiling it raises \<open>re.error\<close> before any chunk is
  built.
\<close>

theorem unescaped_filename_counterexample:
  "(case process_pdf_content ''x'' ''(.pdf'' of Inl e \<Rightarrow> e = ReError | Inr r \<Rightarrow> False)"
  by code_simp

text \<open>
  Claim C5, amended: whenever \<open>process_pdf_content\<close> returns, the chunk list has exactly
  one chunk of tipo \<open>identificacao\<close>, it is at index 0, and its text is the first 500
  characters of the raw text cleaned by the identification branch; and it returns
  whenever the stem of the filename is made of characters that stand for themselves in
  a pattern, or the text contains a course code (\<open>CC\<close> or \<open>PP\<close>, digits, a capital
  letter).
\<close>

theorem identification_chunk_first:
  "(\<forall>md chunks. process_pdf_content t filename = Inr (md, chunks) \<longrightarrow>
      chunks \<noteq> [] \<and> tipo (chunks ! 0) = ''identificacao''
      \<and> clean_chunk_text (take 500 t) (Some ''identificacao'') = Inr (chunk_text (chunks ! 0))
      \<and> length (filter (\<lambda>c. tipo c = ''identificacao'') chunks) = 1)
   \<and> (list_all plain (fst (splitext filename))
        \<or> (\<exists>pre code post. t = pre @ code @ post
              \<and> code_shape extractor_prefixes extractor_last code)
      \<longrightarrow> (\<exists>md chunks. process_pdf_content t filename = Inr (md, chunks)))"
proof (intro conjI allI impI)
  fix md chunks
  assume "process_pdf_content t filename = Inr (md, chunks)"
  from process_pdf_content_ident[OF this]
  show "chunks \<noteq> []" "tipo (chunks ! 0) = ''identificacao''"
    "clean_chunk_text (take 500 t) (Some ''identificacao'') = Inr (chunk_text (chunks ! 0))"
    "length (filter (\<lambda>c. tipo c = ''identificacao'') chunks) = 1"
    by simp_all
next
  assume "list_all plain (fst (splitext filename))
        \<or> (\<exists>pre code post. t = pre @ code @ post
              \<and> code_shape extractor_prefixes extractor_last code)"
  then show "\<exists>md chunks. process_pdf_content t filename = Inr (md, chunks)"
    using process_pdf_content_total[of filename t] process_pdf_content_total_code[of t _ _ _ filename]
    by blast
qed

theorem identification_chunk_witness:
  "list_all plain (fst (splitext ''OP63P.pdf''))
   \<and> (\<exists>md chunks. process_pdf_content ''Plano de ensino'' ''OP63P.pdf'' = Inr (md, chunks)
        \<and> chunks \<noteq> [] \<and> tipo (chunks ! 0) = ''identificacao''
        \<and> clean_chunk_text (take 500 ''Plano de ensino'') (Some ''identificacao'')
            = Inr (chunk_text (chunks ! 0))
        \<and> length (filter (\<lambda>c. tipo c = ''identificacao'') chunks) = 1)"
proof -
  have 1: "list_all plain (fst (splitext ''OP63P.pdf''))" by code_simp
  note th = identification_chunk_first[of "''Plano de ensino''" "''OP63P.pdf''"]
  from th[THEN conjunct2] 1 obtain md chunks where
    r: "process_pdf_content ''Plano de ensino'' ''OP63P.pdf'' = Inr (md, chunks)" by blast
  from th[THEN conjunct1] r 1 show ?thesis by blast
qed

subsection \<open>C2: cleaning a cleaned text again\<close>

text \<open>
  Claim C2: the default branch of \<open>clean_chunk_text\<close> (a tag other than
  \<open>identificacao\<close>) is idempotent: cleaning the cleaned text gives the same text. The
  leading ordinal is removed once per call: \<open>"1 2 x"\<close> is cleaned to \<open>"2 x"\<close>, and
  \<open>"2 x"\<close> is cleaned to \<open>"x"\<close>.
\<close>

theorem default_cleaning_counterexample:
  "clean_chunk_text ''1 2 x'' None = Inr ''2 x''
   \<and> clean_chunk_text ''2 x'' None = Inr ''x''"
  by code_simp

text \<open>
  Claim C2, amended: for every text and every tag other than \<open>identificacao\<close> the
  default branch returns a text \<open>c\<close>, and cleaning \<open>c\<close> again gives \<open>c\<close> exactly when
  \<open>c\<close> in lower case is not one of the boilerplate phrases and neither of the two
  patterns that remove text, \<open>^\d+\s+\<close> and \<open>(Bibliografia Complementar\s*)+$\<close> (the
  second with \<open>IGNORECASE\<close>), matches \<open>c\<close>. The conditions are the tests of the code
  itself, applied to \<open>c\<close>, so they do not depend on which characters a pattern matches:
  a match of either pattern is never empty and no later step makes the text longer, so a
  match changes \<open>c\<close>; without one, the three remaining steps (the split into lines, the
  substitution of \<open>\s+\<close> and \<open>strip\<close>) change nothing in a cleaned text. Each of the
  three conditions can fail for a cleaned text: the example above, and the two of
  \<open>default_cleaning_other_changes\<close>. For the texts of this theory, \<open>ordinal_unmatched\<close>
  and \<open>heading_unmatched\<close> say when the two patterns do not match.
\<close>

theorem default_cleaning_idempotent_when_settled:
  assumes "tag \<noteq> Some ''identificacao''"
  shows "\<exists>c. clean_chunk_text t tag = Inr c
           \<and> (clean_chunk_text c tag = Inr c
                \<longleftrightarrow> lower c \<notin> set boilerplate
                    \<and> re_search (''^'' @ bs_d @ ''+'' @ bs_s @ ''+'') c no_flags = Inr None
                    \<and> re_search (''(Bibliografia Complementar'' @ bs_s @ ''*)+$'') c IGNORECASE
                        = Inr None)"
proof -
  from clean_default_total[of t] obtain c where c: "clean_chunk_text t None = Inr c" by blast
  from clean_default_normal[OF c] have n: "normal c" .
  have "clean_chunk_text c None = Inr c
                \<longleftrightarrow> lower c \<notin> set boilerplate
                    \<and> re_search (''^'' @ bs_d @ ''+'' @ bs_s @ ''+'') c no_flags = Inr None
                    \<and> re_search (''(Bibliografia Complementar'' @ bs_s @ ''*)+$'') c IGNORECASE
                        = Inr None"
    using clean_default_unmatched[OF n] clean_default_changes[OF n] by blast
  with c show ?thesis by (auto simp: clean_default_tag[OF assms])
qed

theorem default_cleaning_witness:
  "clean_chunk_text (''Ementa'' @ [newline] @ ''  grafos   e  redes '') None = Inr ''grafos e redes''
   \<and> lower ''grafos e redes'' \<notin> set boilerplate
   \<and> re_search (''^'' @ bs_d @ ''+'' @ bs_s @ ''+'') ''grafos e redes'' no_flags = Inr None
   \<and> re_search (''(Bibliografia Complementar'' @ bs_s @ ''*)+$'') ''grafos e redes'' IGNORECASE
        = Inr None
   \<and> clean_chunk_text ''grafos e redes'' None = Inr ''grafos e redes''
   \<and> clean_chunk_text ''1 2 x'' None = Inr ''2 x''
   \<and> clean_chunk_text ''2 x'' None \<noteq> Inr ''2 x''
   \<and> re_search (''^'' @ bs_d @ ''+'' @ bs_s @ ''+'') ''2 x'' no_flags \<noteq> Inr None"
proof -
  have 0: "None \<noteq> Some ''identificacao''" by simp
  have 1: "clean_chunk_text (''Ementa'' @ [newline] @ ''  grafos   e  redes '') None
      = Inr ''grafos e redes''" by code_simp
  have 2: "lower ''grafos e redes'' \<notin> set boilerplate" by code_simp
  have "case re_search (''^'' @ bs_d @ ''+'' @ bs_s @ ''+'') ''grafos e redes'' no_flags of
          Inr None \<Rightarrow> True | Inr (Some m) \<Rightarrow> False | Inl e \<Rightarrow> False"
    by code_simp
  then have 3: "re_search (''^'' @ bs_d @ ''+'' @ bs_s @ ''+'') ''grafos e redes'' no_flags = Inr None"
    by (simp split: sum.splits option.splits)
  have "case re_search (''(Bibliografia Complementar'' @ bs_s @ ''*)+$'') ''grafos e redes'' IGNORECASE of
          Inr None \<Rightarrow> True | Inr (Some m) \<Rightarrow> False | Inl e \<Rightarrow> False"
    by code_simp
  then have 4: "re_search (''(Bibliografia Complementar'' @ bs_s @ ''*)+$'') ''grafos e redes'' IGNORECASE
        = Inr None"
    by (simp split: sum.splits option.splits)
  from default_cleaning_idempotent_when_settled[OF 0, of "''Ementa'' @ [newline] @ ''  grafos   e  redes ''"]
  obtain c where c: "clean_chunk_text (''Ementa'' @ [newline] @ ''  grafos   e  redes '') None = Inr c"
    and i: "clean_chunk_text c None = Inr c
              \<longleftrightarrow> lower c \<notin> set boilerplate
                \<and> re_search (''^'' @ bs_d @ ''+'' @ bs_s @ ''+'') c no_flags = Inr None
                \<and> re_search (''(Bibliografia Complementar'' @ bs_s @ ''*)+$'') c IGNORECASE = Inr None"
    by blast
  from c 1 have "c = ''grafos e redes''" by (simp only: sum.inject)
  with i 2 3 4 have 5: "clean_chunk_text ''grafos e redes'' None = Inr ''grafos e redes''" by blast
  have 6: "clean_chunk_text ''1 2 x'' None = Inr ''2 x''" by code_simp
  have 7: "clean_chunk_text ''2 x'' None \<noteq> Inr ''2 x''" by code_simp
  from default_cleaning_idempotent_when_settled[OF 0, of "''1 2 x''"]
  obtain d where d: "clean_chunk_text ''1 2 x'' None = Inr d"
    and j: "clean_chunk_text d None = Inr d
              \<longleftrightarrow> lower d \<notin> set boilerplate
                \<and> re_search (''^'' @ bs_d @ ''+'' @ bs_s @ ''+'') d no_flags = Inr None
                \<and> re_search (''(Bibliografia Complementar'' @ bs_s @ ''*)+$'') d IGNORECASE = Inr None"
    by blast
  from d 6 have dd: "d = ''2 x''" by (simp only: sum.inject)
  have 8: "lower ''2 x'' \<notin> set boilerplate" by code_simp
  have "case re_search (''(Bibliografia Complementar'' @ bs_s @ ''*)+$'') ''2 x'' IGNORECASE of
          Inr None \<Rightarrow> True | Inr (Some m) \<Rightarrow> False | Inl e \<Rightarrow> False"
    by code_simp
  then have 9: "re_search (''(Bibliografia Complementar'' @ bs_s @ ''*)+$'') ''2 x'' IGNORECASE
        = Inr None"
    by (simp split: sum.splits option.splits)
  from j[unfolded dd] 7 8 9
  have 10: "re_search (''^'' @ bs_d @ ''+'' @ bs_s @ ''+'') ''2 x'' no_flags \<noteq> Inr None" by blast
  from 1 2 3 4 5 6 7 10 show ?thesis by (intro conjI)
qed
end
